theory Spec2Isabelle
  imports Main "HOL-Library.Multiset"
begin

section \<open>Strings\<close>

text \<open>
  A JavaScript string is a sequence of UTF-16 code units; \<open>length\<close>, indexing and the
  regular expressions of the source (none has the \<open>u\<close> flag) all work on code units.
  A code unit is modelled by its number, a string by the list of its code units.
\<close>

type_synonym jschar = nat
type_synonym jsstring = "nat list"

definition ascii :: "string \<Rightarrow> jsstring" where
  "ascii s = map of_char s"

text \<open>\<^verbatim>\<open>xs.at(-1)\<close>: the last element, \<^verbatim>\<open>undefined\<close> on an empty array.\<close>

definition at_last :: "'a list \<Rightarrow> 'a option" where
  "at_last xs = (if xs = [] then None else Some (last xs))"

text \<open>
  \<^verbatim>\<open>\s\<close> of a regular expression and the characters \<^verbatim>\<open>trim()\<close> strips are the same set:
  WhiteSpace (TAB, VT, FF, SP, NBSP, ZWNBSP and the category Zs) and LineTerminator
  (LF, CR, LS, PS).
\<close>

definition isLineTerminator :: "jschar \<Rightarrow> bool" where
  "isLineTerminator c = (c = 0x0A \<or> c = 0x0D \<or> c = 0x2028 \<or> c = 0x2029)"

definition isWhiteSpace :: "jschar \<Rightarrow> bool" where
  "isWhiteSpace c =
     (c = 0x09 \<or> c = 0x0B \<or> c = 0x0C \<or> c = 0x20 \<or> c = 0xA0 \<or> c = 0xFEFF
      \<or> c = 0x1680 \<or> (0x2000 \<le> c \<and> c \<le> 0x200A) \<or> c = 0x202F \<or> c = 0x205F
      \<or> c = 0x3000 \<or> isLineTerminator c)"

definition isDigit :: "jschar \<Rightarrow> bool" where
  "isDigit c = (0x30 \<le> c \<and> c \<le> 0x39)"

text \<open>\<^verbatim>\<open>s.trim()\<close>\<close>

definition trim :: "jsstring \<Rightarrow> jsstring" where
  "trim s = rev (dropWhile isWhiteSpace (rev (dropWhile isWhiteSpace s)))"

text \<open>\<^verbatim>\<open>s.startsWith(p)\<close>, \<^verbatim>\<open>s.endsWith(p)\<close>, \<^verbatim>\<open>s.includes(p)\<close>, \<^verbatim>\<open>xs.join(sep)\<close>\<close>

definition startsWith :: "jsstring \<Rightarrow> jsstring \<Rightarrow> bool" where
  "startsWith s p = (take (length p) s = p)"

definition endsWith :: "jsstring \<Rightarrow> jsstring \<Rightarrow> bool" where
  "endsWith s p = (length p \<le> length s \<and> drop (length s - length p) s = p)"

fun includes_str :: "jsstring \<Rightarrow> jsstring \<Rightarrow> bool" where
  "includes_str [] p = (p = [])"
| "includes_str (c # cs) p = (startsWith (c # cs) p \<or> includes_str cs p)"

fun join :: "jsstring \<Rightarrow> jsstring list \<Rightarrow> jsstring" where
  "join sep [] = []"
| "join sep [x] = x"
| "join sep (x # y # ys) = x @ sep @ join sep (y # ys)"

subsection \<open>Global replacement by a regular expression\<close>

text \<open>
  \<^verbatim>\<open>s.replace(/re/g, rep)\<close> scans the string from the left. Where the expression matches,
  the match is replaced and the scan goes on behind it; elsewhere the character is kept.
  A matcher gets the character before the position (\<^verbatim>\<open>^\<close> with the \<^verbatim>\<open>m\<close> flag looks at
  it) and the input from the position on; it returns the replacement text and the
  number of characters the match consumes beyond the first. No expression of the
  source matches the empty string.
\<close>

type_synonym matcher = "jschar option \<Rightarrow> jsstring \<Rightarrow> (jsstring \<times> nat) option"

function replace_all :: "matcher \<Rightarrow> jschar option \<Rightarrow> jsstring \<Rightarrow> jsstring" where
  "replace_all m prev [] = []"
| "replace_all m prev (c # cs) =
     (case m prev (c # cs) of
        None \<Rightarrow> c # replace_all m (Some c) cs
      | Some (rep, n) \<Rightarrow> rep @ replace_all m (at_last (take (Suc n) (c # cs))) (drop n cs))"
  by pat_completeness auto
termination
  by (relation "measure (\<lambda>(m, prev, s). length s)") auto

definition replace_g :: "matcher \<Rightarrow> jsstring \<Rightarrow> jsstring" where
  "replace_g m s = replace_all m None s"

text \<open>Pieces of the expressions: each takes the input and returns the rest behind its match.\<close>

definition ws_star :: "jsstring \<Rightarrow> jsstring option" where
  "ws_star s = Some (dropWhile isWhiteSpace s)"

definition lit :: "jschar \<Rightarrow> jsstring \<Rightarrow> jsstring option" where
  "lit c s = (case s of [] \<Rightarrow> None | x # xs \<Rightarrow> if x = c then Some xs else None)"

definition opt_lit :: "jschar \<Rightarrow> jsstring \<Rightarrow> jsstring option" where
  "opt_lit c s = (case s of [] \<Rightarrow> Some s | x # xs \<Rightarrow> if x = c then Some xs else Some s)"

text \<open>
  The \<^verbatim>\<open>i\<close> flag compares canonicalized code units. Without the \<^verbatim>\<open>u\<close> flag,
  Canonicalize is \<^verbatim>\<open>toUpperCase\<close> on one code unit, except that it never maps a
  non-ASCII unit to an ASCII one. The letters of the source's expressions are ASCII
  letters, \<^verbatim>\<open>U+00FC/U+00DC\<close>, \<^verbatim>\<open>U+00C7\<close> and the dotless \<^verbatim>\<open>U+0131\<close> (which stays
  itself); \<open>canonicalize\<close> is Canonicalize on the units that can be equal to one of
  these, and the identity elsewhere.
\<close>

definition canonicalize :: "jschar \<Rightarrow> jschar" where
  "canonicalize c =
     (if 0x61 \<le> c \<and> c \<le> 0x7A then c - 0x20
      else if c = 0xFC then 0xDC
      else if c = 0xE7 then 0xC7
      else c)"

definition lit_ci :: "jsstring \<Rightarrow> jsstring \<Rightarrow> jsstring option" where
  "lit_ci p s =
     (if length p \<le> length s \<and> map canonicalize (take (length p) s) = map canonicalize p
      then Some (drop (length p) s) else None)"

text \<open>An ordered alternation \<^verbatim>\<open>(a|b|...)\<close> under the \<^verbatim>\<open>i\<close> flag: the first that matches.\<close>

fun alt_ci :: "jsstring list \<Rightarrow> jsstring \<Rightarrow> (jsstring \<times> jsstring) option" where
  "alt_ci [] s = None"
| "alt_ci (p # ps) s =
     (case lit_ci p s of
        Some rest \<Rightarrow> Some (take (length p) s, rest)
      | None \<Rightarrow> alt_ci ps s)"

text \<open>\<^verbatim>\<open>(\d+)\<close>: the digits matched and the rest.\<close>

definition digits1 :: "jsstring \<Rightarrow> (jsstring \<times> jsstring) option" where
  "digits1 s =
     (let d = takeWhile isDigit s in
      if d = [] then None else Some (d, dropWhile isDigit s))"

text \<open>The number of characters a match consumed beyond the first.\<close>

definition consumed :: "jsstring \<Rightarrow> jsstring \<Rightarrow> nat" where
  "consumed s rest = length s - length rest - 1"

text \<open>\<^verbatim>\<open>s.replace(/\s+/g, " ")\<close>\<close>

definition m_spaces :: matcher where
  "m_spaces prev s =
     (case s of
        [] \<Rightarrow> None
      | c # cs \<Rightarrow>
          if isWhiteSpace c then Some ([0x20], consumed s (dropWhile isWhiteSpace s)) else None)"

definition collapse_spaces :: "jsstring \<Rightarrow> jsstring" where
  "collapse_spaces s = replace_g m_spaces s"

text \<open>\<^verbatim>\<open>s.replace(/<[^>]*>/g, "")\<close>\<close>

definition m_tag :: matcher where
  "m_tag prev s =
     (case Option.bind (lit 0x3C s) (\<lambda>r. lit 0x3E (dropWhile (\<lambda>c. c \<noteq> 0x3E) r)) of
        None \<Rightarrow> None
      | Some rest \<Rightarrow> Some ([], consumed s rest))"

definition strip_tags :: "jsstring \<Rightarrow> jsstring" where
  "strip_tags s = replace_g m_tag s"

section \<open>escapeHtml\<close>

definition replace_char :: "jschar \<Rightarrow> jsstring \<Rightarrow> jsstring \<Rightarrow> jsstring" where
  "replace_char c rep s = concat (map (\<lambda>x. if x = c then rep else [x]) s)"

definition escapeHtml :: "jsstring \<Rightarrow> jsstring" where
  "escapeHtml s =
     replace_char 0x27 (ascii ''&#039;'')
       (replace_char 0x22 (ascii ''&quot;'')
         (replace_char 0x3E (ascii ''&gt;'')
           (replace_char 0x3C (ascii ''&lt;'')
             (replace_char 0x26 (ascii ''&amp;'') s))))"

section \<open>Text Transform\<close>

definition emoji_span :: "jsstring \<Rightarrow> jsstring" where
  \<open>emoji_span glyph =
     ascii ''<span style="font-family: Apple Color Emoji; font-size: 8.5pt;">'' @ glyph
       @ ascii ''</span>''\<close>

definition time_span :: "jsstring \<Rightarrow> jsstring" where
  \<open>time_span inner =
     ascii ''<span style="color: rgb(236, 102, 65); background: rgb(204, 255, 255); padding: 1px 4px; border-radius: 3px;">''
       @ inner @ ascii ''</span>''\<close>

text \<open>The glyphs, in UTF-16: gem stone, crystal ball, the flag (two regional indicators),
  star with a variation selector.\<close>

definition gem :: jsstring where "gem = [0xD83D, 0xDC8E]"
definition crystal :: jsstring where "crystal = [0xD83D, 0xDD2E]"
definition flag :: jsstring where "flag = [0xD83C, 0xDDF9, 0xD83C, 0xDDF7]"
definition star :: jsstring where "star = [0x2B50, 0xFE0F]"

text \<open>\<^verbatim>\<open>/=>/g\<close> and \<^verbatim>\<open>/\<bullet>/g\<close> (the bullet is U+2022)\<close>

definition m_arrow :: matcher where
  "m_arrow prev s =
     (case Option.bind (lit 0x3D s) (lit 0x3E) of
        None \<Rightarrow> None
      | Some rest \<Rightarrow> Some (emoji_span gem, consumed s rest))"

definition m_bullet :: matcher where
  "m_bullet prev s =
     (case lit 0x2022 s of
        None \<Rightarrow> None
      | Some rest \<Rightarrow> Some (emoji_span crystal, consumed s rest))"

text \<open>\<^verbatim>\<open>/^-\s*/gm\<close> and \<^verbatim>\<open>/^\*\s*/gm\<close>: with the \<^verbatim>\<open>m\<close> flag, \<^verbatim>\<open>^\<close> matches at the start of
  the input and behind a line terminator.\<close>

definition at_line_start :: "jschar option \<Rightarrow> bool" where
  "at_line_start prev = (case prev of None \<Rightarrow> True | Some c \<Rightarrow> isLineTerminator c)"

definition m_line_mark :: "jschar \<Rightarrow> jsstring \<Rightarrow> matcher" where
  "m_line_mark mark rep prev s =
     (if at_line_start prev then
        (case Option.bind (lit mark s) ws_star of
           None \<Rightarrow> None
         | Some rest \<Rightarrow> Some (rep, consumed s rest))
      else None)"

text \<open>\<^verbatim>\<open>/<br\s*\/?>\s*-\s*/gi\<close> and \<^verbatim>\<open>/<br\s*\/?>\s*\*\s*/gi\<close>\<close>

definition m_br_mark :: "jschar \<Rightarrow> jsstring \<Rightarrow> matcher" where
  "m_br_mark mark rep prev s =
     (case Option.bind (Option.bind (Option.bind (Option.bind (Option.bind (Option.bind
             (lit_ci (ascii ''<br'') s) ws_star) (opt_lit 0x2F)) (lit 0x3E)) ws_star)
             (lit mark)) ws_star of
        None \<Rightarrow> None
      | Some rest \<Rightarrow> Some (rep, consumed s rest))"

text \<open>The unit words of \<^verbatim>\<open>timeUnits\<close> and \<^verbatim>\<open>timeExpressions\<close>, in the order of the
  alternations; \<open>0x131\<close> is the dotless i, \<open>0xFC\<close> and \<open>0xDC\<close> the u with diaeresis,
  \<open>0xC7\<close> the C with cedilla.\<close>

definition timeUnit_words :: "jsstring list" where
  "timeUnit_words =
     [ascii ''y'' @ [0x131] @ ascii ''l'',
      ascii ''y'' @ [0x131] @ ascii ''ll'' @ [0x131] @ ascii ''k'',
      ascii ''ay'',
      ascii ''ayl'' @ [0x131] @ ascii ''k'',
      ascii ''hafta'',
      ascii ''haftal'' @ [0x131] @ ascii ''k'',
      ascii ''g'' @ [0xFC] @ ascii ''n'',
      ascii ''g'' @ [0xFC] @ ascii ''nl'' @ [0xFC] @ ascii ''k'',
      ascii ''YIL'', ascii ''YILLIK'', ascii ''AY'', ascii ''AYLIK'',
      ascii ''HAFTA'', ascii ''HAFTALIK'',
      ascii ''G'' @ [0xDC] @ ascii ''N'',
      ascii ''G'' @ [0xDC] @ ascii ''NL'' @ [0xDC] @ ascii ''K'']"

definition timeFrom_words :: "jsstring list" where
  "timeFrom_words =
     [ascii ''YILDAN'', ascii ''AYDAN'', ascii ''HAFTADAN'',
      ascii ''G'' @ [0xDC] @ ascii ''NDEN'']"

definition compare_words :: "jsstring list" where
  "compare_words = [ascii ''FAZLA'', [0xC7] @ ascii ''OK'', ascii ''AZ'']"

text \<open>\<^verbatim>\<open>/(\d+)\s*(y..l|...)/gi\<close> with the replacement \<^verbatim>\<open>$1  $2\<close> in the coloured span\<close>

definition m_timeUnits :: matcher where
  "m_timeUnits prev s =
     (case digits1 s of
        None \<Rightarrow> None
      | Some (d, r) \<Rightarrow>
          (case alt_ci timeUnit_words (dropWhile isWhiteSpace r) of
             None \<Rightarrow> None
           | Some (u, rest) \<Rightarrow> Some (time_span (d @ ascii ''  '' @ u), consumed s rest)))"

text \<open>\<^verbatim>\<open>/(\d+)\s*(YILDAN|...)\s*(FAZLA|...)/gi\<close> with the replacement \<^verbatim>\<open>$1  $2 $3\<close>\<close>

definition m_timeExpressions :: matcher where
  "m_timeExpressions prev s =
     (case digits1 s of
        None \<Rightarrow> None
      | Some (d, r) \<Rightarrow>
          (case alt_ci timeFrom_words (dropWhile isWhiteSpace r) of
             None \<Rightarrow> None
           | Some (u, r') \<Rightarrow>
               (case alt_ci compare_words (dropWhile isWhiteSpace r') of
                  None \<Rightarrow> None
                | Some (w, rest) \<Rightarrow>
                    Some (time_span (d @ ascii ''  '' @ u @ ascii '' '' @ w), consumed s rest))))"

definition transformText :: "jsstring \<Rightarrow> jsstring" where
  "transformText html =
     (let result = html;
          result = replace_g m_arrow result;
          result = replace_g m_bullet result;
          result = replace_g (m_line_mark 0x2D (emoji_span flag @ ascii '' '')) result;
          result = replace_g (m_br_mark 0x2D (ascii ''<br/>'' @ emoji_span flag @ ascii '' '')) result;
          result = replace_g (m_line_mark 0x2A (emoji_span star @ ascii '' '')) result;
          result = replace_g (m_br_mark 0x2A (ascii ''<br/>'' @ emoji_span star @ ascii '' '')) result;
          result = replace_g m_timeUnits result;
          result = replace_g m_timeExpressions result
      in result)"

section \<open>Sentence Segmenter\<close>

text \<open>
  \<^verbatim>\<open>text.split(/(?<=[\.\!\?\<dots>])\s+(?=[^\s])/g)\<close>. The expression matches at a position
  when the character before it is one of \<^verbatim>\<open>. ! ?\<close> and U+2026, a run of whitespace starts
  there, and a character that is not whitespace follows the run. \<^verbatim>\<open>split\<close> looks for
  a match at each position from the left; a match closes the current piece and the scan
  goes on behind it; the rest of the input is the last piece.
\<close>

definition isSentenceEnd :: "jschar \<Rightarrow> bool" where
  "isSentenceEnd c = (c = 0x2E \<or> c = 0x21 \<or> c = 0x3F \<or> c = 0x2026)"

definition boundary_at :: "jschar option \<Rightarrow> jsstring \<Rightarrow> bool" where
  "boundary_at prev s =
     ((case prev of None \<Rightarrow> False | Some p \<Rightarrow> isSentenceEnd p)
      \<and> takeWhile isWhiteSpace s \<noteq> [] \<and> dropWhile isWhiteSpace s \<noteq> [])"

function split_sentences :: "jschar option \<Rightarrow> jsstring \<Rightarrow> jsstring \<Rightarrow> jsstring list" where
  "split_sentences prev cur [] = [cur]"
| "split_sentences prev cur (c # cs) =
     (if boundary_at prev (c # cs)
      then cur # split_sentences (at_last (takeWhile isWhiteSpace (c # cs))) []
                   (dropWhile isWhiteSpace cs)
      else split_sentences (Some c) (cur @ [c]) cs)"
  by pat_completeness auto
termination
  by (relation "measure (\<lambda>(prev, cur, s). length s)")
     (auto simp: le_imp_less_Suc length_dropWhile_le)

text \<open>The class of \<^verbatim>\<open>/[\(\)\[\]\{\}\- ... \:]/\<close>: brackets, hyphen, en dash U+2013, em dash U+2014
  and colon.\<close>

definition isLoneMark :: "jschar \<Rightarrow> bool" where
  "isLoneMark c =
     (c = 0x28 \<or> c = 0x29 \<or> c = 0x5B \<or> c = 0x5D \<or> c = 0x7B \<or> c = 0x7D
      \<or> c = 0x2D \<or> c = 0x2013 \<or> c = 0x2014 \<or> c = 0x3A)"

definition splitIntoSentences :: "jsstring \<Rightarrow> jsstring list" where
  "splitIntoSentences htmlText =
     (let text = trim htmlText in
      if text = [] then []
      else
        (let parts = split_sentences None [] text in
         filter (\<lambda>p. p \<noteq> [])
           (map (\<lambda>p. let trimmed = trim p in
                      if length trimmed = 1 \<and> list_ex isLoneMark trimmed then []
                      else transformText trimmed)
              parts)))"

section \<open>Data model\<close>

text \<open>
  \<^verbatim>\<open>type DocElement = {id; type: "heading"; level; content} | {id; type: "paragraph"; text}
     | {id; type: "checkbox"; text} | {id; type: "table"; data} | {id; type: "pageBreak"}\<close>
\<close>

datatype DocElement =
    Heading jsstring nat jsstring
  | Paragraph jsstring jsstring
  | Checkbox jsstring jsstring
  | Table jsstring "jsstring list list"
  | PageBreak jsstring

fun el_id :: "DocElement \<Rightarrow> jsstring" where
  "el_id (Heading i _ _) = i"
| "el_id (Paragraph i _) = i"
| "el_id (Checkbox i _) = i"
| "el_id (Table i _) = i"
| "el_id (PageBreak i) = i"

fun is_pageBreak :: "DocElement \<Rightarrow> bool" where
  "is_pageBreak (PageBreak _) = True"
| "is_pageBreak _ = False"

datatype error = TypeError | ReadError | ConvertError

section \<open>Element Classifier\<close>

text \<open>\<^verbatim>\<open>isLikelyCheckbox\<close>: the glyphs are U+2610, U+2611, U+25A1, U+2713 and U+2022.\<close>

definition isLikelyCheckbox :: "jsstring \<Rightarrow> bool" where
  "isLikelyCheckbox text =
     (let t = trim text in
      startsWith t [0x2610] \<or> startsWith t [0x2611] \<or> startsWith t [0x25A1]
      \<or> startsWith t [0x2713] \<or> startsWith t [0x2022])"

text \<open>\<^verbatim>\<open>/[A-Z\<dots>]/\<close>: A to Z and the five letters U+00C7, U+011E, U+00D6, U+015E, U+00DC
  (the \<^verbatim>\<open>I\<close> of the class is the ASCII letter).\<close>

definition isCapital :: "jschar \<Rightarrow> bool" where
  "isCapital c =
     ((0x41 \<le> c \<and> c \<le> 0x5A) \<or> c = 0xC7 \<or> c = 0x11E \<or> c = 0x49 \<or> c = 0xD6
      \<or> c = 0x15E \<or> c = 0xDC)"

definition isRoman :: "jschar \<Rightarrow> bool" where
  "isRoman c = (c = 0x49 \<or> c = 0x56 \<or> c = 0x58)"

text \<open>\<^verbatim>\<open>/^[0-9]+\)/.test(t)\<close> and \<^verbatim>\<open>/^[IVX]+\./.test(t)\<close>\<close>

definition starts_digits_paren :: "jsstring \<Rightarrow> bool" where
  "starts_digits_paren t =
     (takeWhile isDigit t \<noteq> [] \<and> lit 0x29 (dropWhile isDigit t) \<noteq> None)"

definition starts_roman_dot :: "jsstring \<Rightarrow> bool" where
  "starts_roman_dot t =
     (takeWhile isRoman t \<noteq> [] \<and> lit 0x2E (dropWhile isRoman t) \<noteq> None)"

text \<open>
  \<^verbatim>\<open>looksLikeHeadingText\<close>. \<^verbatim>\<open>Math.floor(t.length * 0.4)\<close> is \<open>2 * length t div 5\<close>: the
  double nearest to 0.4 is above 0.4 by less than \<open>2.3e-17\<close>, so the product is never
  below the exact one and its floor is the exact floor for every length a string has.
\<close>

definition looksLikeHeadingText :: "jsstring \<Rightarrow> bool" where
  "looksLikeHeadingText text =
     (let t = trim (collapse_spaces text) in
      if t = [] then False
      else if length t \<le> 2 then False
      else
        (let hasPuncEnd = (case at_last t of None \<Rightarrow> False | Some c \<Rightarrow> isSentenceEnd c);
             hasManyCaps = (length (filter isCapital t) \<ge> min 6 (length t * 2 div 5));
             isShort = (length t \<le> 70)
         in isShort \<and> \<not> hasPuncEnd
            \<and> (hasManyCaps \<or> starts_digits_paren t \<or> starts_roman_dot t)))"

section \<open>The parsed markup and the platform\<close>

text \<open>
  What the normalizer reads of a DOM element: \<^verbatim>\<open>tagName\<close>, \<^verbatim>\<open>getAttribute("style")\<close>
  (\<open>None\<close> for \<^verbatim>\<open>null\<close>), \<^verbatim>\<open>innerHTML\<close>, \<^verbatim>\<open>textContent\<close> and \<^verbatim>\<open>children\<close>.
\<close>

datatype Element =
  Element (tagName: jsstring) (styleAttr: "jsstring option") (innerHTML: jsstring)
    (textContent: jsstring) (children: "Element list")

text \<open>
  The functions of the platform and of the converter library, which the repository calls
  and does not define, are parameters: \<^verbatim>\<open>String.prototype.toLowerCase\<close>; the
  \<^verbatim>\<open>DOMParser\<close>, as the list \<^verbatim>\<open>doc.body.children\<close> of the parsed string;
  \<^verbatim>\<open>Math.random().toString(36).slice(2, 10)\<close> and \<^verbatim>\<open>Date.now().toString(36)\<close> at the
  \<open>n\<close>-th call of \<^verbatim>\<open>uid\<close>; \<^verbatim>\<open>mammoth.convertToHtml\<close>, as the \<^verbatim>\<open>value\<close> of its result
  or the error it throws.
\<close>

record platform =
  toLowerCase :: "jsstring \<Rightarrow> jsstring"
  parseFromString :: "jsstring \<Rightarrow> Element list"
  random36 :: "nat \<Rightarrow> jsstring"
  now36 :: "nat \<Rightarrow> jsstring"
  convertToHtml :: "nat list \<Rightarrow> error + jsstring"

text \<open>\<^verbatim>\<open>uid(prefix)\<close>, at the \<open>n\<close>-th call\<close>

definition uid :: "platform \<Rightarrow> jsstring \<Rightarrow> nat \<Rightarrow> jsstring" where
  "uid P prefix n = prefix @ ascii ''_'' @ random36 P n @ ascii ''_'' @ now36 P n"

text \<open>\<^verbatim>\<open>el.querySelectorAll(tags)\<close>: the descendants with one of the tags, in document order\<close>

fun descendants :: "Element \<Rightarrow> Element list" where
  "descendants (Element tg st inner txt kids) = concat (map (\<lambda>k. k # descendants k) kids)"

definition querySelectorAll :: "platform \<Rightarrow> jsstring list \<Rightarrow> Element \<Rightarrow> Element list" where
  "querySelectorAll P tags el =
     filter (\<lambda>e. toLowerCase P (tagName e) \<in> set tags) (descendants el)"

definition parseHtmlTable :: "platform \<Rightarrow> Element \<Rightarrow> jsstring list list" where
  "parseHtmlTable P tableEl =
     map (\<lambda>tr. map (\<lambda>c. trim (innerHTML c)) (querySelectorAll P [ascii ''th'', ascii ''td''] tr))
       (querySelectorAll P [ascii ''tr''] tableEl)"

section \<open>Document Normalizer\<close>

text \<open>
  \<^verbatim>\<open>walk\<close> pushes to \<^verbatim>\<open>out\<close> and calls \<^verbatim>\<open>uid\<close>: the state it passes on is \<^verbatim>\<open>out\<close> with the
  number of \<^verbatim>\<open>uid\<close> calls made so far.
\<close>

fun walk :: "platform \<Rightarrow> Element \<Rightarrow> DocElement list \<times> nat \<Rightarrow> DocElement list \<times> nat" where
  "walk P (Element tg st inner txt kids) (out0, n0) =
     (let tag = toLowerCase P tg;
          style = toLowerCase P (case st of None \<Rightarrow> [] | Some s \<Rightarrow> s);
          (out, n) =
            (if includes_str style (ascii ''page-break-before'') \<and> includes_str style (ascii ''always'')
             then (out0 @ [PageBreak (uid P (ascii ''pb'') n0)], Suc n0)
             else (out0, n0))
      in
        if tag = ascii ''table'' then
          (out @ [Table (uid P (ascii ''tbl'') n) (parseHtmlTable P (Element tg st inner txt kids))], Suc n)
        else if tag = ascii ''h1'' \<or> tag = ascii ''h2'' \<or> tag = ascii ''h3'' then
          (let level = (if tag = ascii ''h1'' then 1 else if tag = ascii ''h2'' then 2 else 3)
           in (out @ [Heading (uid P (ascii ''h'') n) level (trim inner)], Suc n))
        else if tag = ascii ''p'' \<or> tag = ascii ''div'' then
          (let raw = trim inner;
               plain = txt;
               t = trim (collapse_spaces plain)
           in
             if t = [] then (out, n)
             else if looksLikeHeadingText t then
               (out @ [Heading (uid P (ascii ''h'') n) 2 (escapeHtml t)], Suc n)
             else if isLikelyCheckbox t then
               (out @ [Checkbox (uid P (ascii ''cb'') n) raw], Suc n)
             else (out @ [Paragraph (uid P (ascii ''p'') n) raw], Suc n))
        else fold (walk P) kids (out, n))"

definition last_is_pageBreak :: "DocElement list \<Rightarrow> bool" where
  "last_is_pageBreak xs = (case at_last xs of None \<Rightarrow> False | Some el \<Rightarrow> is_pageBreak el)"

text \<open>The body of \<^verbatim>\<open>for (const el of out)\<close>\<close>

definition clean_step :: "DocElement \<Rightarrow> DocElement list \<Rightarrow> DocElement list" where
  "clean_step el cleaned =
     (if is_pageBreak el \<and> last_is_pageBreak cleaned then cleaned else cleaned @ [el])"

definition docxToElements :: "platform \<Rightarrow> jsstring \<Rightarrow> nat \<Rightarrow> DocElement list \<times> nat" where
  "docxToElements P html n0 =
     (let (out, n) = fold (walk P) (parseFromString P html) ([], n0);
          cleaned = fold clean_step out [];
          cleaned = (if last_is_pageBreak cleaned then butlast cleaned else cleaned)
      in (cleaned, n))"

section \<open>Paginator\<close>

text \<open>
  \<^verbatim>\<open>pages.at(-1)!.push(el)\<close> mutates the last page in place; on an empty \<^verbatim>\<open>pages\<close> the
  receiver is \<^verbatim>\<open>undefined\<close> and the call throws a TypeError.
\<close>

definition push_last :: "'a \<Rightarrow> 'a list list \<Rightarrow> error + 'a list list" where
  "push_last el pages =
     (case at_last pages of
        None \<Rightarrow> Inl TypeError
      | Some p \<Rightarrow> Inr (butlast pages @ [p @ [el]]))"

text \<open>The body of \<^verbatim>\<open>for (const el of elements)\<close> in \<^verbatim>\<open>splitElementsIntoPages\<close>.\<close>

fun pages_loop :: "DocElement list \<Rightarrow> DocElement list list \<Rightarrow> error + DocElement list list" where
  "pages_loop [] pages = Inr pages"
| "pages_loop (el # els) pages =
     (if is_pageBreak el then
        (if (case at_last pages of None \<Rightarrow> False | Some p \<Rightarrow> length p \<noteq> 0)
         then pages_loop els (pages @ [[]])
         else pages_loop els pages)
      else
        (case push_last el pages of
           Inl e \<Rightarrow> Inl e
         | Inr pages' \<Rightarrow> pages_loop els pages'))"

definition splitElementsIntoPages :: "DocElement list \<Rightarrow> error + DocElement list list" where
  "splitElementsIntoPages elements =
     (case pages_loop elements [[]] of
        Inl e \<Rightarrow> Inl e
      | Inr pages \<Rightarrow> Inr (filter (\<lambda>p. length p > 0) pages))"

section \<open>Application state\<close>

text \<open>
  \<^verbatim>\<open>type HighlightsState = Record<string, { sentences: number[]; hasHighlight: boolean }>\<close>.
  The records are read and written with element ids and cell keys only, and are modelled
  as maps from strings. A sentence index is an integer.
\<close>

record HighlightEntry =
  sentences :: "int list"
  hasHighlight :: bool

type_synonym HighlightsState = "jsstring \<rightharpoonup> HighlightEntry"

record ParsedDocument =
  doc_id :: jsstring
  name :: jsstring
  elements :: "DocElement list"

text \<open>The state of the component that the core reads and writes (\<^verbatim>\<open>useState\<close>).\<close>

record app_state =
  documents :: "ParsedDocument list"
  currentDocId :: "jsstring option"
  highlightsByDoc :: "jsstring \<rightharpoonup> HighlightsState"

text \<open>The values derived with \<^verbatim>\<open>useMemo\<close>: \<^verbatim>\<open>currentDoc\<close>, \<^verbatim>\<open>highlights\<close>, \<^verbatim>\<open>pages\<close>.\<close>

definition currentDoc :: "app_state \<Rightarrow> ParsedDocument option" where
  "currentDoc st = find (\<lambda>d. Some (doc_id d) = currentDocId st) (documents st)"

definition highlights :: "app_state \<Rightarrow> HighlightsState" where
  "highlights st =
     (case currentDoc st of
        None \<Rightarrow> Map.empty
      | Some d \<Rightarrow> (case highlightsByDoc st (doc_id d) of None \<Rightarrow> Map.empty | Some h \<Rightarrow> h))"

definition pages :: "app_state \<Rightarrow> error + DocElement list list" where
  "pages st =
     (case currentDoc st of
        None \<Rightarrow> Inr []
      | Some d \<Rightarrow> splitElementsIntoPages (elements d))"

section \<open>Annotation Store\<close>

definition setHighlightsForCurrentDoc ::
  "(HighlightsState \<Rightarrow> HighlightsState) \<Rightarrow> app_state \<Rightarrow> app_state" where
  "setHighlightsForCurrentDoc updater st =
     (case currentDoc st of
        None \<Rightarrow> st
      | Some d \<Rightarrow>
          (let prev = highlightsByDoc st;
               cur = (case prev (doc_id d) of None \<Rightarrow> Map.empty | Some h \<Rightarrow> h)
           in st\<lparr>highlightsByDoc := prev(doc_id d \<mapsto> updater cur)\<rparr>))"

definition empty_entry :: HighlightEntry where
  "empty_entry = \<lparr>sentences = [], hasHighlight = False\<rparr>"

text \<open>The updater of \<^verbatim>\<open>handleSentenceClick\<close>\<close>

definition toggleSentence :: "jsstring \<Rightarrow> int \<Rightarrow> HighlightsState \<Rightarrow> HighlightsState" where
  "toggleSentence elementId sentenceIndex prev =
     (let current = (case prev elementId of None \<Rightarrow> empty_entry | Some e \<Rightarrow> e);
          exists = (sentenceIndex \<in> set (sentences current));
          nextSentences =
            (if exists then filter (\<lambda>i. i \<noteq> sentenceIndex) (sentences current)
             else sentences current @ [sentenceIndex])
      in prev(elementId \<mapsto>
           \<lparr>sentences = nextSentences, hasHighlight = (length nextSentences > 0)\<rparr>))"

definition handleSentenceClick :: "jsstring \<Rightarrow> int \<Rightarrow> app_state \<Rightarrow> app_state" where
  "handleSentenceClick elementId sentenceIndex st =
     setHighlightsForCurrentDoc (toggleSentence elementId sentenceIndex) st"

text \<open>A number in a template literal: its decimal digits.\<close>

function decimal :: "nat \<Rightarrow> jsstring" where
  "decimal n = (if n < 10 then [0x30 + n] else decimal (n div 10) @ [0x30 + n mod 10])"
  by pat_completeness auto
termination
  by (relation "measure id") auto

declare decimal.simps [simp del]

definition cellKey :: "jsstring \<Rightarrow> nat \<Rightarrow> nat \<Rightarrow> jsstring" where
  "cellKey elementId rowIndex cellIndex =
     elementId @ ascii ''_r'' @ decimal rowIndex @ ascii ''_c'' @ decimal cellIndex"

text \<open>The updater of \<^verbatim>\<open>handleCellClick\<close>\<close>

definition toggleCell :: "jsstring \<Rightarrow> HighlightsState \<Rightarrow> HighlightsState" where
  "toggleCell key prev =
     (let current = (case prev key of None \<Rightarrow> empty_entry | Some e \<Rightarrow> e)
      in prev(key \<mapsto>
           \<lparr>sentences = (if hasHighlight current then [] else [0]),
            hasHighlight = (\<not> hasHighlight current)\<rparr>))"

definition handleCellClick :: "jsstring \<Rightarrow> nat \<Rightarrow> nat \<Rightarrow> app_state \<Rightarrow> app_state" where
  "handleCellClick elementId rowIndex cellIndex st =
     setHighlightsForCurrentDoc (toggleCell (cellKey elementId rowIndex cellIndex)) st"

definition clearHighlights :: "app_state \<Rightarrow> app_state" where
  "clearHighlights st = setHighlightsForCurrentDoc (\<lambda>prev. Map.empty) st"

text \<open>The operations of the store, and a sequence of them applied in order.\<close>

datatype store_op =
    ToggleSentence jsstring int
  | ToggleCell jsstring nat nat
  | ClearAll

fun apply_store_op :: "store_op \<Rightarrow> app_state \<Rightarrow> app_state" where
  "apply_store_op (ToggleSentence elementId sentenceIndex) st =
     handleSentenceClick elementId sentenceIndex st"
| "apply_store_op (ToggleCell elementId rowIndex cellIndex) st =
     handleCellClick elementId rowIndex cellIndex st"
| "apply_store_op ClearAll st = clearHighlights st"

definition run_store_ops :: "store_op list \<Rightarrow> app_state \<Rightarrow> app_state" where
  "run_store_ops ops st = fold apply_store_op ops st"

section \<open>Export Assembler\<close>

text \<open>\<^verbatim>\<open>xs[idx]\<close> for an integer \<^verbatim>\<open>idx\<close>: \<^verbatim>\<open>undefined\<close> outside of the array.\<close>

definition at_index :: "'a list \<Rightarrow> int \<Rightarrow> 'a option" where
  "at_index xs idx = (if 0 \<le> idx \<and> idx < int (length xs) then Some (xs ! nat idx) else None)"

text \<open>
  \<^verbatim>\<open>.slice().sort((a, b) => a - b).map((idx) => sentences[idx]).filter(Boolean)\<close>:
  \<^verbatim>\<open>filter(Boolean)\<close> drops \<^verbatim>\<open>undefined\<close> and the empty string.
\<close>

definition pick_sentences :: "jsstring list \<Rightarrow> int list \<Rightarrow> jsstring list" where
  "pick_sentences sents idxs =
     List.map_filter
       (\<lambda>idx. case at_index sents idx of
                None \<Rightarrow> None
              | Some s \<Rightarrow> if s = [] then None else Some s)
       (sort idxs)"

text \<open>The body of the inner loop of \<^verbatim>\<open>getAllHighlightedText\<close>, for an element with a text.\<close>

definition export_text ::
  "HighlightsState \<Rightarrow> jsstring \<Rightarrow> jsstring \<Rightarrow> jsstring list \<Rightarrow> jsstring list" where
  "export_text hl i text exported =
     (case hl i of
        None \<Rightarrow> exported
      | Some elementHighlights \<Rightarrow>
          if \<not> hasHighlight elementHighlights then exported
          else
            (let sents = splitIntoSentences text;
                 picked = pick_sentences sents (sentences elementHighlights)
             in if length picked \<noteq> 0 then
                  (let asPlain = trim (collapse_spaces (join (ascii '' '') (map strip_tags picked)))
                   in if asPlain \<noteq> [] then exported @ [asPlain] else exported)
                else exported))"

fun export_element :: "HighlightsState \<Rightarrow> DocElement \<Rightarrow> jsstring list \<Rightarrow> jsstring list" where
  "export_element hl (Paragraph i text) exported = export_text hl i text exported"
| "export_element hl (Checkbox i text) exported = export_text hl i text exported"
| "export_element hl _ exported = exported"

definition getAllHighlightedText :: "app_state \<Rightarrow> error + jsstring list" where
  "getAllHighlightedText st =
     (case currentDoc st of
        None \<Rightarrow> Inr []
      | Some d \<Rightarrow>
          (case pages st of
             Inl e \<Rightarrow> Inl e
           | Inr ps \<Rightarrow>
               Inr (fold (\<lambda>pageEls exported. fold (export_element (highlights st)) pageEls exported)
                      ps [])))"

section \<open>Ingestion\<close>

text \<open>A file: its name and what \<^verbatim>\<open>file.arrayBuffer()\<close> resolves to, or rejects with.\<close>

record File =
  file_name :: jsstring
  arrayBuffer :: "error + nat list"

text \<open>\<^verbatim>\<open>a || b\<close> on values that are a string, \<^verbatim>\<open>null\<close> or \<^verbatim>\<open>undefined\<close>\<close>

definition js_or :: "jsstring option \<Rightarrow> jsstring option \<Rightarrow> jsstring option" where
  "js_or a b = (case a of None \<Rightarrow> b | Some s \<Rightarrow> if s = [] then b else Some s)"

text \<open>
  The loop of \<^verbatim>\<open>readFiles\<close>. Nothing catches a rejected \<^verbatim>\<open>await\<close>: the loop, and with it
  \<^verbatim>\<open>readFiles\<close>, ends there with the error.
\<close>

fun read_loop ::
  "platform \<Rightarrow> File list \<Rightarrow> ParsedDocument list \<Rightarrow> nat \<Rightarrow> (error + ParsedDocument list) \<times> nat" where
  "read_loop P [] parsedDocs n = (Inr parsedDocs, n)"
| "read_loop P (file # files) parsedDocs n =
     (case arrayBuffer file of
        Inl e \<Rightarrow> (Inl e, n)
      | Inr buffer \<Rightarrow>
          (case convertToHtml P buffer of
             Inl e \<Rightarrow> (Inl e, n)
           | Inr html \<Rightarrow>
               (let (els, n1) = docxToElements P html n
                in read_loop P files
                     (parsedDocs @ [\<lparr>doc_id = uid P (ascii ''doc'') n1, name = file_name file,
                                     elements = els\<rparr>])
                     (Suc n1))))"

definition is_docx :: "platform \<Rightarrow> File \<Rightarrow> bool" where
  "is_docx P f = endsWith (toLowerCase P (file_name f)) (ascii ''.docx'')"

text \<open>\<^verbatim>\<open>readFiles\<close>: the error the returned promise rejects with, if any, the state of the
  component afterwards, and the number of \<^verbatim>\<open>uid\<close> calls.\<close>

definition readFiles ::
  "platform \<Rightarrow> File list \<Rightarrow> app_state \<Rightarrow> nat \<Rightarrow> error option \<times> app_state \<times> nat" where
  "readFiles P files st n =
     (let fileArr = filter (is_docx P) files in
      if length fileArr = 0 then (None, st, n)
      else
        (case read_loop P fileArr [] n of
           (Inl e, n') \<Rightarrow> (Some e, st, n')
         | (Inr parsedDocs, n') \<Rightarrow>
             (None,
              st\<lparr>documents := documents st @ parsedDocs,
                 currentDocId :=
                   js_or (js_or (currentDocId st)
                            (case parsedDocs of [] \<Rightarrow> None | d # _ \<Rightarrow> Some (doc_id d)))
                     None\<rparr>,
              n')))"

section \<open>Properties stated over the model\<close>

text \<open>Two pageBreak elements next to each other in a list.\<close>

definition adjacent_breaks :: "DocElement list \<Rightarrow> bool" where
  "adjacent_breaks xs =
     (\<exists>i. Suc i < length xs \<and> is_pageBreak (xs ! i) \<and> is_pageBreak (xs ! Suc i))"

text \<open>Every entry of a highlight map has \<open>hasHighlight\<close> equal to "\<open>sentences\<close> is non-empty".\<close>

definition entries_consistent :: "HighlightsState \<Rightarrow> bool" where
  "entries_consistent hl = (\<forall>k e. hl k = Some e \<longrightarrow> hasHighlight e = (sentences e \<noteq> []))"


text \<open>A state with one document, selected, and no annotation yet.\<close>

definition demo_state :: app_state where
  "demo_state =
     \<lparr>documents = [\<lparr>doc_id = ascii ''doc_1'', name = ascii ''a.docx'', elements = []\<rparr>],
      currentDocId = Some (ascii ''doc_1''),
      highlightsByDoc = Map.empty\<rparr>"

text \<open>A file whose bytes can be read and converted.\<close>

definition file_ok :: "platform \<Rightarrow> File \<Rightarrow> bool" where
  "file_ok P f =
     (case arrayBuffer f of
        Inl e \<Rightarrow> False
      | Inr buffer \<Rightarrow> (case convertToHtml P buffer of Inl e \<Rightarrow> False | Inr html \<Rightarrow> True))"

text \<open>A document made from a file: the file's name, and the elements of the normalized
  conversion of its bytes.\<close>

definition doc_of_file :: "platform \<Rightarrow> File \<Rightarrow> ParsedDocument \<Rightarrow> bool" where
  "doc_of_file P f d =
     (name d = file_name f
      \<and> (\<exists>buffer html m. arrayBuffer f = Inr buffer \<and> convertToHtml P buffer = Inr html
            \<and> elements d = fst (docxToElements P html m)))"

text \<open>The error that reading and converting a file ends with, if any: the rejection of
  \<^verbatim>\<open>file.arrayBuffer()\<close>, or else the error the converter throws.\<close>

definition file_error :: "platform \<Rightarrow> File \<Rightarrow> error option" where
  "file_error P f =
     (case arrayBuffer f of
        Inl e \<Rightarrow> Some e
      | Inr buffer \<Rightarrow> (case convertToHtml P buffer of Inl e \<Rightarrow> Some e | Inr html \<Rightarrow> None))"

text \<open>
  A platform for concrete runs: ASCII letters are lowered, the parser returns one
  paragraph that holds the input as its text, the converter returns the bytes as the
  string, and the two parts of an id are \<open>r\<close> and \<open>t\<close>.
\<close>

definition demo_platform :: platform where
  "demo_platform =
     \<lparr>toLowerCase = map (\<lambda>c. if 0x41 \<le> c \<and> c \<le> 0x5A then c + 0x20 else c),
      parseFromString = (\<lambda>html. [Element (ascii ''P'') None html html []]),
      random36 = (\<lambda>n. ascii ''r''),
      now36 = (\<lambda>n. ascii ''t''),
      convertToHtml = (\<lambda>buffer. Inr buffer)\<rparr>"

definition good_file :: File where
  "good_file = \<lparr>file_name = ascii ''a.docx'', arrayBuffer = Inr (ascii ''Hi there.'')\<rparr>"

definition bad_file :: File where
  "bad_file = \<lparr>file_name = ascii ''b.DOCX'', arrayBuffer = Inl ReadError\<rparr>"

definition empty_state :: app_state where
  "empty_state = \<lparr>documents = [], currentDocId = None, highlightsByDoc = Map.empty\<rparr>"

text \<open>A string whose whitespace is single spaces: every whitespace character is U+0020
  and the character behind it is not whitespace.\<close>

fun single_spaced :: "jsstring \<Rightarrow> bool" where
  "single_spaced [] = True"
| "single_spaced (c # cs) =
     ((if isWhiteSpace c then c = 0x20 \<and> (case cs of [] \<Rightarrow> True | d # ds \<Rightarrow> \<not> isWhiteSpace d)
       else True)
      \<and> single_spaced cs)"

text \<open>
  The rule for a promoted heading, on the whitespace-normalized plain text: more than 2
  and at most 70 characters, no sentence punctuation at the end, and at least
  \<open>min 6 (2 * length t div 5)\<close> capitals of the class, or an enumeration prefix.
\<close>

definition heading_rule :: "jsstring \<Rightarrow> bool" where
  "heading_rule t =
     (2 < length t \<and> length t \<le> 70 \<and> \<not> isSentenceEnd (last t)
      \<and> (min 6 (2 * length t div 5) \<le> length (filter isCapital t)
           \<or> starts_digits_paren t \<or> starts_roman_dot t))"

text \<open>An index that points into a list.\<close>

definition in_range :: "'a list \<Rightarrow> int \<Rightarrow> bool" where
  "in_range xs idx = (0 \<le> idx \<and> idx < int (length xs))"

text \<open>
  The export entry of one element, in the words of the specification: an element that is
  a paragraph or a checkbox item and whose highlight entry has \<open>hasHighlight\<close> set
  contributes its selected sentences, taken in ascending index order without their tags
  and joined with a single space, the whitespace of the result normalized; it
  contributes nothing when that text is empty.
\<close>

definition spec_entry_text :: "HighlightsState \<Rightarrow> jsstring \<Rightarrow> jsstring \<Rightarrow> jsstring option" where
  "spec_entry_text hl i text =
     (case hl i of
        None \<Rightarrow> None
      | Some e \<Rightarrow>
          if hasHighlight e then
            (let sents = splitIntoSentences text;
                 selected = map (\<lambda>idx. sents ! nat idx) (filter (in_range sents) (sort (sentences e)));
                 plain = trim (collapse_spaces (join (ascii '' '') (map strip_tags selected)))
             in if plain = [] then None else Some plain)
          else None)"

fun spec_export_entry :: "HighlightsState \<Rightarrow> DocElement \<Rightarrow> jsstring option" where
  "spec_export_entry hl (Paragraph i text) = spec_entry_text hl i text"
| "spec_export_entry hl (Checkbox i text) = spec_entry_text hl i text"
| "spec_export_entry hl _ = None"

text \<open>
  What the export reads of a highlight map: for each key the selected indices as a
  multiset, and the flag. A sentence click acts on it as \<open>abs_toggle\<close>.
\<close>

definition abs_highlights :: "HighlightsState \<Rightarrow> (jsstring \<rightharpoonup> int multiset \<times> bool)" where
  "abs_highlights hl = (\<lambda>k. map_option (\<lambda>e. (mset (sentences e), hasHighlight e)) (hl k))"

definition abs_toggle ::
  "jsstring \<times> int \<Rightarrow> (jsstring \<rightharpoonup> int multiset \<times> bool) \<Rightarrow> (jsstring \<rightharpoonup> int multiset \<times> bool)" where
  "abs_toggle ki a =
     (let k = fst ki; i = snd ki;
          m = (case a k of None \<Rightarrow> {#} | Some mh \<Rightarrow> fst mh);
          m' = (if i \<in># m then filter_mset (\<lambda>j. j \<noteq> i) m else add_mset i m)
      in a(k \<mapsto> (m', m' \<noteq> {#})))"

text \<open>A sequence of sentence clicks, each given by its element id and sentence index.\<close>

definition sentence_clicks :: "(jsstring \<times> int) list \<Rightarrow> store_op list" where
  "sentence_clicks cs = map (\<lambda>ki. ToggleSentence (fst ki) (snd ki)) cs"

text \<open>A state with one document of two pages, selected, and no annotation yet.\<close>

definition demo_doc :: ParsedDocument where
  "demo_doc =
     \<lparr>doc_id = ascii ''doc_1'', name = ascii ''a.docx'',
      elements =
        [Paragraph (ascii ''p_1'') (ascii ''Hello world. This is a test.''),
         PageBreak (ascii ''pb_1''),
         Checkbox (ascii ''cb_1'') (ascii ''One. <b>Two!</b> Three? Four.'')]\<rparr>"

definition demo_doc_state :: app_state where
  "demo_doc_state =
     \<lparr>documents = [demo_doc], currentDocId = Some (ascii ''doc_1''),
      highlightsByDoc = Map.empty\<rparr>"

text \<open>
  Parsed markup for a concrete run: a paragraph, a container and its child that both ask for
  a page break, a paragraph that asks for one, and a blank block that asks for one.
\<close>

definition demo_markup :: "Element list" where
  "demo_markup =
     [Element (ascii ''P'') None (ascii ''Intro text here.'') (ascii ''Intro text here.'') [],
      Element (ascii ''SECTION'') (Some (ascii ''page-break-before: always'')) [] []
        [Element (ascii ''SPAN'') (Some (ascii ''Page-Break-Before:ALWAYS'')) [] [] []],
      Element (ascii ''P'') (Some (ascii ''page-break-before: always''))
        (ascii '' Next <i>page</i>. '') (ascii '' Next page. '') [],
      Element (ascii ''DIV'') (Some (ascii ''page-break-before: always'')) [] (ascii ''  '') []]"

section \<open>Paginator: proofs\<close>

lemma pages_loop_inv:
  assumes "pgs \<noteq> []"
  shows "\<exists>ps. pages_loop els pgs = Inr ps \<and> ps \<noteq> []
           \<and> concat ps = concat pgs @ filter (\<lambda>e. \<not> is_pageBreak e) els"
  using assms
proof (induction els arbitrary: pgs)
  case Nil
  then show ?case by simp
next
  case (Cons el els)
  show ?case
  proof (cases "is_pageBreak el")
    case True
    have ne: "pgs @ [[]] \<noteq> []" by simp
    from Cons.IH[OF ne] Cons.IH[OF Cons.prems] True show ?thesis
      by (cases "case at_last pgs of None \<Rightarrow> False | Some p \<Rightarrow> length p \<noteq> 0") auto
  next
    case False
    obtain p where p: "at_last pgs = Some p" and pl: "p = last pgs"
      using Cons.prems by (simp add: at_last_def)
    let ?pgs' = "butlast pgs @ [p @ [el]]"
    have ne: "?pgs' \<noteq> []" by simp
    have "concat pgs = concat (butlast pgs) @ p"
      using Cons.prems pl by (metis append_butlast_last_id concat.simps(1,2) concat_append append_Nil2)
    then have c: "concat ?pgs' = concat pgs @ [el]" by simp
    from Cons.IH[OF ne] obtain ps where
      ps: "pages_loop els ?pgs' = Inr ps" "ps \<noteq> []"
      "concat ps = concat ?pgs' @ filter (\<lambda>e. \<not> is_pageBreak e) els" by blast
    have "pages_loop (el # els) pgs = Inr ps"
      using False p ps(1) by (simp add: push_last_def)
    moreover have "concat ps = concat pgs @ filter (\<lambda>e. \<not> is_pageBreak e) (el # els)"
      using False ps(3) unfolding c by simp
    ultimately show ?thesis using ps(2) by blast
  qed
qed

lemma splitElementsIntoPages_returns: "\<exists>pgs. splitElementsIntoPages els = Inr pgs"
proof -
  have "[[]] \<noteq> ([] :: DocElement list list)" by simp
  from pages_loop_inv[OF this, of els] show ?thesis
    by (auto simp: splitElementsIntoPages_def)
qed

text \<open>
  C2. Page coverage: the paginator returns normally, and the concatenation of its pages is
  the element list without its pageBreak elements: every other element once, in order.
\<close>

theorem C2_page_coverage:
  "\<exists>pgs. splitElementsIntoPages els = Inr pgs
      \<and> concat pgs = filter (\<lambda>e. \<not> is_pageBreak e) els"
proof -
  have ne: "[[]] \<noteq> ([] :: DocElement list list)" by simp
  from pages_loop_inv[OF ne, of els] obtain ps where
    ps: "pages_loop els [[]] = Inr ps"
    and c: "concat ps = filter (\<lambda>e. \<not> is_pageBreak e) els" by auto
  have "concat (filter (\<lambda>p. length p > 0) ps) = concat ps"
    by (induction ps) auto
  with ps c show ?thesis by (simp add: splitElementsIntoPages_def)
qed

lemma pages_loop_clean:
  assumes "pgs \<noteq> []" "\<forall>p\<in>set pgs. \<forall>e\<in>set p. \<not> is_pageBreak e"
    "pages_loop els pgs = Inr ps"
  shows "\<forall>p\<in>set ps. \<forall>e\<in>set p. \<not> is_pageBreak e"
  using assms
proof (induction els arbitrary: pgs)
  case Nil
  then show ?case by simp
next
  case (Cons el els)
  show ?case
  proof (cases "is_pageBreak el")
    case True
    have "pages_loop els (pgs @ [[]]) = Inr ps \<or> pages_loop els pgs = Inr ps"
      using Cons.prems(3) True by (simp split: if_splits)
    then show ?thesis
    proof
      assume a: "pages_loop els (pgs @ [[]]) = Inr ps"
      show ?thesis by (rule Cons.IH[OF _ _ a]) (use Cons.prems(2) in auto)
    next
      assume a: "pages_loop els pgs = Inr ps"
      show ?thesis by (rule Cons.IH[OF Cons.prems(1,2) a])
    qed
  next
    case False
    have a: "pages_loop els (butlast pgs @ [last pgs @ [el]]) = Inr ps"
      using Cons.prems(1,3) False by (simp add: push_last_def at_last_def)
    have "\<forall>p\<in>set (butlast pgs @ [last pgs @ [el]]). \<forall>e\<in>set p. \<not> is_pageBreak e"
      using Cons.prems(1,2) False by (auto dest: in_set_butlastD)
    then show ?thesis by (rule Cons.IH[OF _ _ a, rotated]) simp
  qed
qed

text \<open>
  C3, as amended. The paginator returns normally; every page it returns is non-empty and
  holds no pageBreak element; and it returns at least one page exactly when the element
  list holds an element that is not a pageBreak. A non-empty list of pageBreak elements
  only gives no page at all.
\<close>

theorem C3_pages_nonempty:
  "\<exists>pgs. splitElementsIntoPages els = Inr pgs
      \<and> (pgs \<noteq> [] \<longleftrightarrow> (\<exists>e\<in>set els. \<not> is_pageBreak e))
      \<and> (\<forall>p\<in>set pgs. p \<noteq> [] \<and> (\<forall>e\<in>set p. \<not> is_pageBreak e))"
proof -
  have ne: "[[]] \<noteq> ([] :: DocElement list list)" by simp
  from pages_loop_inv[OF ne, of els] obtain ps where
    ps: "pages_loop els [[]] = Inr ps"
    and c: "concat ps = filter (\<lambda>e. \<not> is_pageBreak e) els" by auto
  let ?pgs = "filter (\<lambda>p. length p > 0) ps"
  have r: "splitElementsIntoPages els = Inr ?pgs"
    using ps by (simp add: splitElementsIntoPages_def)
  have cc: "concat ?pgs = concat ps" by (induction ps) auto
  have clean: "\<forall>p\<in>set ps. \<forall>e\<in>set p. \<not> is_pageBreak e"
    by (rule pages_loop_clean[OF ne _ ps]) simp
  have pg: "\<forall>p\<in>set ?pgs. p \<noteq> [] \<and> (\<forall>e\<in>set p. \<not> is_pageBreak e)"
    using clean by auto
  have "?pgs \<noteq> [] \<longleftrightarrow> concat ?pgs \<noteq> []"
  proof (cases ?pgs)
    case Nil
    then show ?thesis by simp
  next
    case (Cons x xs)
    then have "x \<in> set ?pgs" by simp
    then have "x \<noteq> []" using pg by blast
    then show ?thesis using Cons by simp
  qed
  also have "\<dots> \<longleftrightarrow> (\<exists>e\<in>set els. \<not> is_pageBreak e)"
    unfolding cc c by (simp add: filter_empty_conv)
  finally show ?thesis using r pg by blast
qed

text \<open>The element list of Scenario D, with its three pages.\<close>

theorem C3_pages_nonempty_witness:
  "splitElementsIntoPages
     [Paragraph [1] [65], PageBreak [2], Paragraph [3] [66], PageBreak [4], PageBreak [5],
      Paragraph [6] [67]]
   = Inr [[Paragraph [1] [65]], [Paragraph [3] [66]], [Paragraph [6] [67]]]
   \<and> (\<exists>e\<in>set [Paragraph [1] [65], PageBreak [2], Paragraph [3] [66], PageBreak [4],
         PageBreak [5], Paragraph [6] [67]]. \<not> is_pageBreak e)"
  using C3_pages_nonempty [of "[Paragraph [1] [65], PageBreak [2], Paragraph [3] [66],
      PageBreak [4], PageBreak [5], Paragraph [6] [67]]"]
  by (simp add: splitElementsIntoPages_def push_last_def at_last_def)

text \<open>C3 as stated fails on a list that is one pageBreak: it is non-empty and has no page.\<close>

theorem C3_only_breaks_counterexample:
  "[PageBreak [1]] \<noteq> [] \<and> splitElementsIntoPages [PageBreak [1]] = Inr []"
  by (simp add: splitElementsIntoPages_def push_last_def at_last_def)

section \<open>Normalizer: proofs\<close>


lemma last_is_pageBreak_iff:
  "last_is_pageBreak xs \<longleftrightarrow> xs \<noteq> [] \<and> is_pageBreak (last xs)"
  by (simp add: last_is_pageBreak_def at_last_def)

lemma clean_step_adjacent:
  assumes "\<not> adjacent_breaks cleaned"
  shows "\<not> adjacent_breaks (clean_step el cleaned)"
proof (cases "is_pageBreak el \<and> last_is_pageBreak cleaned")
  case True
  then show ?thesis using assms by (simp add: clean_step_def)
next
  case False
  have "\<not> adjacent_breaks (cleaned @ [el])"
  proof
    assume "adjacent_breaks (cleaned @ [el])"
    then obtain i where i: "Suc i < length (cleaned @ [el])"
      "is_pageBreak ((cleaned @ [el]) ! i)" "is_pageBreak ((cleaned @ [el]) ! Suc i)"
      unfolding adjacent_breaks_def by blast
    show False
    proof (cases "Suc i < length cleaned")
      case True
      then have "is_pageBreak (cleaned ! i)" "is_pageBreak (cleaned ! Suc i)"
        using i(2,3) by (simp_all add: nth_append)
      with True assms show False unfolding adjacent_breaks_def by blast
    next
      case F: False
      then have e: "Suc i = length cleaned" using i(1) by simp
      then have ne: "cleaned \<noteq> []" by auto
      have "cleaned ! i = last cleaned"
        using e ne by (metis diff_Suc_1 last_conv_nth)
      then have "is_pageBreak (last cleaned)" using i(2) e by (simp add: nth_append)
      moreover have "is_pageBreak el" using i(3) e by (simp add: nth_append)
      ultimately show False using False ne by (simp add: last_is_pageBreak_iff)
    qed
  qed
  moreover have "clean_step el cleaned = cleaned @ [el]"
    using False unfolding clean_step_def by (rule if_not_P)
  ultimately show ?thesis by simp
qed

lemma fold_clean_step_adjacent:
  "\<not> adjacent_breaks cleaned \<Longrightarrow> \<not> adjacent_breaks (fold clean_step out cleaned)"
  by (induction out arbitrary: cleaned) (simp_all add: clean_step_adjacent)

lemma strip_trailing_break:
  assumes "\<not> adjacent_breaks cleaned"
  defines "r \<equiv> (if last_is_pageBreak cleaned then butlast cleaned else cleaned)"
  shows "\<not> adjacent_breaks r \<and> \<not> last_is_pageBreak r"
proof (cases "last_is_pageBreak cleaned")
  case False
  then show ?thesis using assms by simp
next
  case True
  then have ne: "cleaned \<noteq> []" and lb: "is_pageBreak (last cleaned)"
    by (simp_all add: last_is_pageBreak_iff)
  have r: "r = butlast cleaned" using True r_def by simp
  have a: "\<not> adjacent_breaks (butlast cleaned)"
  proof
    assume "adjacent_breaks (butlast cleaned)"
    then obtain i where "Suc i < length (butlast cleaned)"
      "is_pageBreak (butlast cleaned ! i)" "is_pageBreak (butlast cleaned ! Suc i)"
      unfolding adjacent_breaks_def by blast
    then have "Suc i < length cleaned \<and> is_pageBreak (cleaned ! i) \<and> is_pageBreak (cleaned ! Suc i)"
      by (simp add: nth_butlast)
    with assms(1) show False unfolding adjacent_breaks_def by blast
  qed
  have b: "\<not> last_is_pageBreak (butlast cleaned)"
  proof
    assume "last_is_pageBreak (butlast cleaned)"
    then have ne2: "butlast cleaned \<noteq> []" and l2: "is_pageBreak (last (butlast cleaned))"
      by (simp_all add: last_is_pageBreak_iff)
    obtain i where i: "length cleaned = Suc (Suc i)"
      using ne2 by (cases cleaned rule: rev_cases; cases "butlast cleaned") auto
    have "last (butlast cleaned) = cleaned ! i"
      using i ne2 by (simp add: last_conv_nth nth_butlast)
    moreover have "last cleaned = cleaned ! Suc i"
      using i ne by (simp add: last_conv_nth)
    ultimately have "Suc i < length cleaned \<and> is_pageBreak (cleaned ! i) \<and> is_pageBreak (cleaned ! Suc i)"
      using i l2 lb by simp
    with assms(1) show False unfolding adjacent_breaks_def by blast
  qed
  from a b r show ?thesis by simp
qed

text \<open>
  C4. For every parser, every input string and every state of the id generator, the list
  that normalization returns has no two pageBreak elements at consecutive positions and
  does not end with a pageBreak element.
\<close>

theorem C4_no_adjacent_or_trailing_breaks:
  "\<not> (\<exists>i. Suc i < length (fst (docxToElements P html n))
          \<and> is_pageBreak (fst (docxToElements P html n) ! i)
          \<and> is_pageBreak (fst (docxToElements P html n) ! Suc i))
   \<and> \<not> last_is_pageBreak (fst (docxToElements P html n))"
proof -
  obtain out n' where w: "fold (walk P) (parseFromString P html) ([], n) = (out, n')"
    by (cases "fold (walk P) (parseFromString P html) ([], n)")
  let ?c = "fold clean_step out []"
  have e: "\<not> adjacent_breaks ([] :: DocElement list)" by (simp add: adjacent_breaks_def)
  have "fst (docxToElements P html n) = (if last_is_pageBreak ?c then butlast ?c else ?c)"
    using w by (simp add: docxToElements_def Let_def)
  with strip_trailing_break[OF fold_clean_step_adjacent[OF e, of out]]
  show ?thesis unfolding adjacent_breaks_def by simp
qed

section \<open>Annotation Store: proofs\<close>

lemma currentDoc_setHighlights [simp]:
  "currentDoc (setHighlightsForCurrentDoc updater st) = currentDoc st"
  by (simp add: setHighlightsForCurrentDoc_def currentDoc_def Let_def split: option.splits)

lemma highlights_setHighlights:
  "highlights (setHighlightsForCurrentDoc updater st) =
     (case currentDoc st of None \<Rightarrow> Map.empty | Some d \<Rightarrow> updater (highlights st))"
proof (cases "currentDoc st")
  case None
  then show ?thesis by (simp add: highlights_def setHighlightsForCurrentDoc_def)
next
  case (Some d)
  let ?st' = "setHighlightsForCurrentDoc updater st"
  have c: "currentDoc ?st' = Some d" using Some by simp
  have "highlightsByDoc ?st' (doc_id d) = Some (updater (highlights st))"
    using Some by (simp add: setHighlightsForCurrentDoc_def highlights_def Let_def)
  then have "highlights ?st' = updater (highlights st)"
    unfolding highlights_def[of ?st'] c by simp
  then show ?thesis using Some by simp
qed

lemma toggleSentence_consistent:
  "entries_consistent hl \<Longrightarrow> entries_consistent (toggleSentence elementId i hl)"
  by (auto simp: entries_consistent_def toggleSentence_def Let_def)

lemma toggleCell_consistent:
  "entries_consistent hl \<Longrightarrow> entries_consistent (toggleCell key hl)"
  by (auto simp: entries_consistent_def toggleCell_def Let_def)

lemma apply_store_op_consistent:
  assumes "entries_consistent (highlights st)"
  shows "entries_consistent (highlights (apply_store_op x st))"
proof (cases "currentDoc st")
  case None
  then show ?thesis
    by (cases x)
       (simp_all add: handleSentenceClick_def handleCellClick_def clearHighlights_def
          highlights_setHighlights entries_consistent_def)
next
  case (Some d)
  then show ?thesis using assms
    by (cases x)
       (simp_all add: handleSentenceClick_def handleCellClick_def clearHighlights_def
          highlights_setHighlights toggleSentence_consistent toggleCell_consistent,
        simp add: entries_consistent_def)
qed

lemma run_store_ops_consistent:
  "entries_consistent (highlights st) \<Longrightarrow> entries_consistent (highlights (run_store_ops ops st))"
  unfolding run_store_ops_def
  by (induction ops arbitrary: st) (simp_all add: apply_store_op_consistent)

text \<open>
  C5. Start in a state whose highlight map (of the selected document) is empty, and apply
  any finite sequence of sentence clicks, cell clicks and clearAll. Then every entry of
  the highlight map has \<open>hasHighlight\<close> equal to "\<open>sentences\<close> is non-empty".
\<close>

theorem C5_highlight_consistency:
  assumes "highlights st0 = Map.empty"
    and "highlights (run_store_ops ops st0) k = Some e"
  shows "hasHighlight e = (sentences e \<noteq> [])"
proof -
  have "entries_consistent (highlights st0)"
    using assms(1) by (simp add: entries_consistent_def)
  then have "entries_consistent (highlights (run_store_ops ops st0))"
    by (rule run_store_ops_consistent)
  with assms(2) show ?thesis unfolding entries_consistent_def by blast
qed

lemma currentDoc_demo:
  "currentDoc demo_state = Some \<lparr>doc_id = ascii ''doc_1'', name = ascii ''a.docx'', elements = []\<rparr>"
  by (simp add: demo_state_def currentDoc_def)

lemma highlights_demo: "highlights demo_state = Map.empty"
  by (simp add: highlights_def currentDoc_demo) (simp add: demo_state_def)

text \<open>Four clicks on the one-document state, and the entry they leave.\<close>

theorem C5_highlight_consistency_witness:
  "highlights demo_state = Map.empty
   \<and> highlights
        (run_store_ops
           [ToggleSentence (ascii ''p_1'') 0, ToggleSentence (ascii ''p_1'') 2,
            ToggleCell (ascii ''tbl_1'') 0 1, ToggleSentence (ascii ''p_1'') 0]
           demo_state) (ascii ''p_1'')
      = Some \<lparr>sentences = [2], hasHighlight = True\<rparr>
   \<and> hasHighlight \<lparr>sentences = [2], hasHighlight = True\<rparr>
      = (sentences \<lparr>sentences = [2::int], hasHighlight = True\<rparr> \<noteq> [])"
proof -
  let ?ops = "[ToggleSentence (ascii ''p_1'') 0, ToggleSentence (ascii ''p_1'') 2,
            ToggleCell (ascii ''tbl_1'') 0 1, ToggleSentence (ascii ''p_1'') 0]"
  have r: "highlights (run_store_ops ?ops demo_state) (ascii ''p_1'')
      = Some \<lparr>sentences = [2], hasHighlight = True\<rparr>"
    by (simp add: run_store_ops_def handleSentenceClick_def handleCellClick_def
        highlights_setHighlights currentDoc_demo highlights_demo toggleSentence_def
        toggleCell_def empty_entry_def cellKey_def ascii_def Let_def)
  from C5_highlight_consistency [OF highlights_demo r] highlights_demo r
  show ?thesis by simp
qed

text \<open>
  C9. With a document selected and no entry for the element id in its highlight map, two
  sentence clicks on the same index (index 0 in particular) leave the entry
  \<open>\<lparr>sentences = [], hasHighlight = False\<rparr>\<close>. The handler is a total function of
  the state: no input makes it fail. On an unknown id it does what it does on the empty
  entry.
\<close>

theorem C9_toggle_twice_restores_empty:
  assumes "currentDoc st = Some d" and "highlights st elementId = None"
  shows "highlights (handleSentenceClick elementId i (handleSentenceClick elementId i st)) elementId
           = Some \<lparr>sentences = [], hasHighlight = False\<rparr>
         \<and> toggleSentence elementId i (highlights st)
           = toggleSentence elementId i
               ((highlights st)(elementId \<mapsto> \<lparr>sentences = [], hasHighlight = False\<rparr>))"
  using assms
  by (simp add: handleSentenceClick_def highlights_setHighlights toggleSentence_def
      empty_entry_def Let_def)

text \<open>Index 0, toggled twice on the one-document state.\<close>

theorem C9_toggle_twice_restores_empty_witness:
  "currentDoc demo_state = Some \<lparr>doc_id = ascii ''doc_1'', name = ascii ''a.docx'', elements = []\<rparr>
   \<and> highlights demo_state (ascii ''p_1'') = None
   \<and> highlights (handleSentenceClick (ascii ''p_1'') 0
                   (handleSentenceClick (ascii ''p_1'') 0 demo_state)) (ascii ''p_1'')
        = Some \<lparr>sentences = [], hasHighlight = False\<rparr>"
proof -
  have h: "highlights demo_state (ascii ''p_1'') = None" by (simp add: highlights_demo)
  from C9_toggle_twice_restores_empty [OF currentDoc_demo h, of 0] currentDoc_demo h
  show ?thesis by simp
qed

section \<open>Ingestion: proofs\<close>

lemma read_loop_succeeds:
  assumes "\<forall>f\<in>set fs. file_ok P f"
  shows "\<exists>docs n'. read_loop P fs acc n = (Inr (acc @ docs), n')
           \<and> list_all2 (doc_of_file P) fs docs"
  using assms
proof (induction fs arbitrary: acc n)
  case Nil
  then show ?case by simp
next
  case (Cons f fs)
  then have "file_ok P f" by simp
  then obtain buffer html where b: "arrayBuffer f = Inr buffer" "convertToHtml P buffer = Inr html"
    by (auto simp: file_ok_def split: sum.splits)
  obtain els n1 where d: "docxToElements P html n = (els, n1)"
    by (cases "docxToElements P html n")
  let ?d = "\<lparr>doc_id = uid P (ascii ''doc'') n1, name = file_name f, elements = els\<rparr>"
  from Cons.prems have "\<forall>f\<in>set fs. file_ok P f" by simp
  from Cons.IH[OF this, of "acc @ [?d]" "Suc n1"] obtain docs n' where
    r: "read_loop P fs (acc @ [?d]) (Suc n1) = (Inr ((acc @ [?d]) @ docs), n')"
    and l: "list_all2 (doc_of_file P) fs docs" by blast
  have "doc_of_file P f ?d"
    unfolding doc_of_file_def using b d by (auto intro: exI[of _ n])
  with l have "list_all2 (doc_of_file P) (f # fs) (?d # docs)" by simp
  moreover have "read_loop P (f # fs) acc n = (Inr (acc @ ?d # docs), n')"
    using b d r by simp
  ultimately show ?case by blast
qed

lemma file_error_iff: "(\<exists>e. file_error P f = Some e) \<longleftrightarrow> \<not> file_ok P f"
  by (auto simp: file_error_def file_ok_def split: sum.splits)

lemma read_loop_first_error:
  assumes "\<forall>g\<in>set pre. file_ok P g" and "file_error P f = Some e"
  shows "\<exists>n'. read_loop P (pre @ f # post) acc n = (Inl e, n')"
  using assms(1)
proof (induction pre arbitrary: acc n)
  case Nil
  from assms(2) show ?case
    by (auto simp: file_error_def split: sum.splits)
next
  case (Cons g pre)
  then have "file_ok P g" by simp
  then obtain buffer html where b: "arrayBuffer g = Inr buffer" "convertToHtml P buffer = Inr html"
    by (auto simp: file_ok_def split: sum.splits)
  from Cons.prems have "\<forall>g\<in>set pre. file_ok P g" by simp
  from Cons.IH[OF this] b show ?case
    by (simp split: prod.splits)
qed

lemma readFiles_first_error:
  assumes "filter (is_docx P) files = pre @ f # post"
    and "\<forall>g\<in>set pre. file_ok P g" and "file_error P f = Some e"
  shows "\<exists>n'. readFiles P files st n = (Some e, st, n')"
proof -
  from read_loop_first_error[OF assms(2,3), of post "[]" n] obtain n' where
    "read_loop P (pre @ f # post) [] n = (Inl e, n')" by blast
  then show ?thesis by (simp add: readFiles_def assms(1))
qed

text \<open>
  C1, as amended. Nothing in \<^verbatim>\<open>readFiles\<close> catches a failure. When a file of the batch
  (the files named \<^verbatim>\<open>.docx\<close>) cannot be read or converted, the batch has a first such
  file, and \<^verbatim>\<open>readFiles\<close> rejects with the error of that file and leaves the state as it
  was: no file of the batch is added, so no partial entry exists. When every file of the
  batch can be read and converted, each is added to the collection, in order, under its
  name and with the elements of its normalized conversion.
\<close>

theorem C1_batch_is_all_or_nothing:
  "((\<exists>f\<in>set (filter (is_docx P) files). \<not> file_ok P f) \<longrightarrow>
      (\<exists>pre f post e n'.
         filter (is_docx P) files = pre @ f # post \<and> (\<forall>g\<in>set pre. file_ok P g)
         \<and> file_error P f = Some e
         \<and> readFiles P files st n = (Some e, st, n')))
   \<and> (filter (is_docx P) files = pre @ f # post \<and> (\<forall>g\<in>set pre. file_ok P g)
        \<and> file_error P f = Some e \<longrightarrow>
      (\<exists>n'. readFiles P files st n = (Some e, st, n')))
   \<and> ((\<forall>f\<in>set (filter (is_docx P) files). file_ok P f) \<longrightarrow>
      (\<exists>st' n' docs. readFiles P files st n = (None, st', n')
         \<and> documents st' = documents st @ docs
         \<and> list_all2 (doc_of_file P) (filter (is_docx P) files) docs))"
proof (intro conjI impI)
  let ?fs = "filter (is_docx P) files"
  assume "\<exists>f\<in>set ?fs. \<not> file_ok P f"
  from split_list_first_prop[OF this] obtain pre f post where
    s: "?fs = pre @ f # post" "\<not> file_ok P f" "\<forall>g\<in>set pre. \<not> \<not> file_ok P g" by blast
  from s(3) have ok: "\<forall>g\<in>set pre. file_ok P g" by simp
  from s(2) obtain e where e: "file_error P f = Some e" using file_error_iff by blast
  from readFiles_first_error[OF s(1) ok e, of st n] obtain n' where
    "readFiles P files st n = (Some e, st, n')" by blast
  with s(1) ok e
  show "\<exists>pre f post e n'. ?fs = pre @ f # post \<and> (\<forall>g\<in>set pre. file_ok P g)
         \<and> file_error P f = Some e \<and> readFiles P files st n = (Some e, st, n')"
    by blast
next
  assume "filter (is_docx P) files = pre @ f # post \<and> (\<forall>g\<in>set pre. file_ok P g)
        \<and> file_error P f = Some e"
  then show "\<exists>n'. readFiles P files st n = (Some e, st, n')"
    using readFiles_first_error by blast
next
  let ?fs = "filter (is_docx P) files"
  assume a: "\<forall>f\<in>set ?fs. file_ok P f"
  from read_loop_succeeds[OF a, of "[]" n] obtain docs n' where
    r: "read_loop P ?fs [] n = (Inr docs, n')" and l: "list_all2 (doc_of_file P) ?fs docs"
    by auto
  show "\<exists>st' n' docs. readFiles P files st n = (None, st', n')
         \<and> documents st' = documents st @ docs \<and> list_all2 (doc_of_file P) ?fs docs"
  proof (cases "?fs = []")
    case True
    then have "readFiles P files st n = (None, st, n)" by (simp add: readFiles_def)
    moreover have "docs = []" using l True by simp
    ultimately show ?thesis using l by auto
  next
    case False
    then show ?thesis using r l by (simp add: readFiles_def)
  qed
qed

lemma is_docx_good: "is_docx demo_platform good_file"
  by (simp add: is_docx_def demo_platform_def good_file_def endsWith_def ascii_def)

lemma is_docx_bad: "is_docx demo_platform bad_file"
  by (simp add: is_docx_def demo_platform_def bad_file_def endsWith_def ascii_def)

lemma file_ok_good: "file_ok demo_platform good_file"
  by (simp add: file_ok_def demo_platform_def good_file_def)

lemma file_ok_bad: "\<not> file_ok demo_platform bad_file"
  by (simp add: file_ok_def bad_file_def)

lemma file_error_bad: "file_error demo_platform bad_file = Some ReadError"
  by (simp add: file_error_def bad_file_def)

text \<open>A batch whose second file is unreadable, and a batch of one good file.\<close>

theorem C1_batch_is_all_or_nothing_witness:
  "filter (is_docx demo_platform) [good_file, bad_file] = [good_file] @ bad_file # []
   \<and> file_ok demo_platform good_file
   \<and> file_error demo_platform bad_file = Some ReadError
   \<and> (\<exists>n'. readFiles demo_platform [good_file, bad_file] empty_state 0
              = (Some ReadError, empty_state, n'))
   \<and> (\<exists>st' n' docs. readFiles demo_platform [good_file] empty_state 0 = (None, st', n')
         \<and> documents st' = documents empty_state @ docs
         \<and> list_all2 (doc_of_file demo_platform) [good_file] docs)"
proof -
  have f: "filter (is_docx demo_platform) [good_file, bad_file] = [good_file] @ bad_file # []"
    by (simp add: is_docx_good is_docx_bad)
  have ok: "\<forall>g\<in>set [good_file]. file_ok demo_platform g" by (simp add: file_ok_good)
  note a = C1_batch_is_all_or_nothing
    [where P=demo_platform and files="[good_file, bad_file]" and pre="[good_file]"
       and f=bad_file and post="[]" and e=ReadError and st=empty_state and n=0]
  note b = C1_batch_is_all_or_nothing
    [where P=demo_platform and files="[good_file]" and pre="[]" and f=good_file
       and post="[]" and e=ReadError and st=empty_state and n=0]
  from a f ok file_error_bad
  have 1: "\<exists>n'. readFiles demo_platform [good_file, bad_file] empty_state 0
              = (Some ReadError, empty_state, n')" by blast
  have g: "filter (is_docx demo_platform) [good_file] = [good_file]"
    by (simp add: is_docx_good)
  have "\<forall>f\<in>set (filter (is_docx demo_platform) [good_file]). file_ok demo_platform f"
    by (simp add: file_ok_good)
  with b have "\<exists>st' n' docs. readFiles demo_platform [good_file] empty_state 0 = (None, st', n')
         \<and> documents st' = documents empty_state @ docs
         \<and> list_all2 (doc_of_file demo_platform) (filter (is_docx demo_platform) [good_file]) docs"
    by blast
  then have 2: "\<exists>st' n' docs. readFiles demo_platform [good_file] empty_state 0 = (None, st', n')
         \<and> documents st' = documents empty_state @ docs
         \<and> list_all2 (doc_of_file demo_platform) [good_file] docs"
    unfolding g .
  from f file_ok_good file_error_bad 1 2 show ?thesis by (intro conjI)
qed

text \<open>
  C1 as stated fails on a batch of a good file followed by an unreadable one: the good
  file is a \<^verbatim>\<open>.docx\<close> file that can be read and converted, and the collection is empty
  after the call.
\<close>

theorem C1_good_file_dropped_counterexample:
  "is_docx demo_platform good_file \<and> file_ok demo_platform good_file
   \<and> fst (readFiles demo_platform [good_file, bad_file] empty_state 0) = Some ReadError
   \<and> documents (fst (snd (readFiles demo_platform [good_file, bad_file] empty_state 0))) = []"
proof -
  obtain els n1 where d: "docxToElements demo_platform (ascii ''Hi there.'') 0 = (els, n1)"
    by (cases "docxToElements demo_platform (ascii ''Hi there.'') 0")
  have c: "convertToHtml demo_platform (ascii ''Hi there.'') = Inr (ascii ''Hi there.'')"
    by (simp add: demo_platform_def)
  have "read_loop demo_platform [good_file, bad_file] [] 0 = (Inl ReadError, Suc n1)"
    using d c by (simp add: good_file_def bad_file_def)
  then show ?thesis
    by (simp add: readFiles_def is_docx_good is_docx_bad file_ok_good empty_state_def)
qed

section \<open>Whitespace normalization: proofs\<close>

lemma replace_spaces_white:
  assumes "isWhiteSpace c"
  shows "replace_all m_spaces prev (c # cs)
           = 0x20 # replace_all m_spaces (at_last (take (Suc (length (takeWhile isWhiteSpace cs))) (c # cs)))
                     (dropWhile isWhiteSpace cs)"
proof -
  have "length cs - length (dropWhile isWhiteSpace cs) = length (takeWhile isWhiteSpace cs)"
    by (metis add_diff_cancel_right' length_append takeWhile_dropWhile_id)
  then have "m_spaces prev (c # cs) = Some ([0x20], length (takeWhile isWhiteSpace cs))"
    using assms by (simp add: m_spaces_def consumed_def)
  then show ?thesis by (simp add: dropWhile_eq_drop)
qed

lemma replace_spaces_other:
  assumes "\<not> isWhiteSpace c"
  shows "replace_all m_spaces prev (c # cs) = c # replace_all m_spaces (Some c) cs"
  using assms by (simp add: m_spaces_def)

lemma replace_spaces_prev:
  "replace_all m_spaces prev s = replace_all m_spaces None s"
proof (induction "length s" arbitrary: s prev rule: less_induct)
  case less
  show ?case
  proof (cases s)
    case Nil
    then show ?thesis by simp
  next
    case (Cons c cs)
    show ?thesis
    proof (cases "isWhiteSpace c")
      case True
      have "length (dropWhile isWhiteSpace cs) < length s"
        using Cons by (simp add: le_imp_less_Suc length_dropWhile_le)
      from less[OF this] show ?thesis
        unfolding Cons replace_spaces_white[OF True] by metis
    next
      case False
      have "length cs < length s" using Cons by simp
      from less[OF this] show ?thesis
        unfolding Cons replace_spaces_other[OF False] by metis
    qed
  qed
qed

lemma collapse_spaces_Nil [simp]: "collapse_spaces [] = []"
  by (simp add: collapse_spaces_def replace_g_def)

lemma collapse_spaces_white:
  "isWhiteSpace c \<Longrightarrow> collapse_spaces (c # cs) = 0x20 # collapse_spaces (dropWhile isWhiteSpace cs)"
  unfolding collapse_spaces_def replace_g_def
  by (subst replace_spaces_white, assumption, subst replace_spaces_prev, rule refl)

lemma collapse_spaces_other:
  "\<not> isWhiteSpace c \<Longrightarrow> collapse_spaces (c # cs) = c # collapse_spaces cs"
  unfolding collapse_spaces_def replace_g_def
  by (subst replace_spaces_other, assumption, subst replace_spaces_prev, rule refl)

lemma collapse_spaces_head:
  "s = [] \<or> \<not> isWhiteSpace (hd s) \<Longrightarrow>
     collapse_spaces s = [] \<or> \<not> isWhiteSpace (hd (collapse_spaces s))"
  by (cases s) (auto simp: collapse_spaces_other)

lemma single_spaced_collapse: "single_spaced (collapse_spaces s)"
proof (induction "length s" arbitrary: s rule: less_induct)
  case less
  show ?case
  proof (cases s)
    case Nil
    then show ?thesis by simp
  next
    case (Cons c cs)
    show ?thesis
    proof (cases "isWhiteSpace c")
      case True
      let ?r = "dropWhile isWhiteSpace cs"
      have "length ?r < length s"
        using Cons by (simp add: le_imp_less_Suc length_dropWhile_le)
      from less[OF this] have a: "single_spaced (collapse_spaces ?r)" .
      have "?r = [] \<or> \<not> isWhiteSpace (hd ?r)"
        by (metis hd_dropWhile)
      from collapse_spaces_head[OF this]
      have b: "case collapse_spaces ?r of [] \<Rightarrow> True | d # ds \<Rightarrow> \<not> isWhiteSpace d"
        by (cases "collapse_spaces ?r") auto
      show ?thesis
        unfolding Cons collapse_spaces_white[OF True] using a b by simp
    next
      case False
      have "length cs < length s" using Cons by simp
      from less[OF this] show ?thesis
        unfolding Cons collapse_spaces_other[OF False] using False by simp
    qed
  qed
qed

lemma single_spaced_take: "single_spaced s \<Longrightarrow> single_spaced (take k s)"
proof (induction s arbitrary: k)
  case Nil
  then show ?case by simp
next
  case (Cons c cs)
  show ?case
  proof (cases k)
    case 0
    then show ?thesis by simp
  next
    case (Suc j)
    have "single_spaced (take j cs)" using Cons by simp
    moreover have "case take j cs of [] \<Rightarrow> True | d # ds \<Rightarrow> \<not> isWhiteSpace d"
      if "isWhiteSpace c"
      using Cons.prems that by (cases cs; cases j) auto
    ultimately show ?thesis using Cons.prems Suc by simp
  qed
qed

lemma single_spaced_dropWhile: "single_spaced s \<Longrightarrow> single_spaced (dropWhile P s)"
  by (induction s) (auto split: if_splits)

lemma rev_dropWhile_rev:
  "rev (dropWhile P (rev z)) = take (length z - length (takeWhile P (rev z))) z"
proof -
  have "rev (dropWhile P (rev z)) = rev (drop (length (takeWhile P (rev z))) (rev z))"
    by (simp only: dropWhile_eq_drop)
  also have "\<dots> = take (length z - length (takeWhile P (rev z))) z"
    by (simp add: rev_drop)
  finally show ?thesis .
qed

lemma dropWhile_fixed: "xs \<noteq> [] \<Longrightarrow> \<not> P (hd xs) \<Longrightarrow> dropWhile P xs = xs"
  by (cases xs) auto

lemma trim_as_take:
  "trim s = take (length (dropWhile isWhiteSpace s)
                   - length (takeWhile isWhiteSpace (rev (dropWhile isWhiteSpace s))))
              (dropWhile isWhiteSpace s)"
  unfolding trim_def by (rule rev_dropWhile_rev)

lemma single_spaced_trim: "single_spaced s \<Longrightarrow> single_spaced (trim s)"
  by (subst trim_as_take) (intro single_spaced_take single_spaced_dropWhile)

lemma collapse_single_spaced: "single_spaced s \<Longrightarrow> collapse_spaces s = s"
proof (induction s)
  case Nil
  then show ?case by simp
next
  case (Cons c cs)
  show ?case
  proof (cases "isWhiteSpace c")
    case True
    then have "c = 0x20" "dropWhile isWhiteSpace cs = cs"
      using Cons.prems by (auto split: list.splits)
    then show ?thesis using Cons True by (simp add: collapse_spaces_white)
  next
    case False
    then show ?thesis using Cons by (simp add: collapse_spaces_other)
  qed
qed

lemma trim_ends:
  assumes "trim s \<noteq> []"
  shows "\<not> isWhiteSpace (hd (trim s)) \<and> \<not> isWhiteSpace (last (trim s))"
proof -
  let ?a = "dropWhile isWhiteSpace s"
  let ?b = "dropWhile isWhiteSpace (rev ?a)"
  have t: "trim s = rev ?b" by (simp add: trim_def)
  with assms have ne: "?b \<noteq> []" by simp
  then have l: "\<not> isWhiteSpace (hd ?b)" by (metis hd_dropWhile)
  have "last (trim s) = hd ?b" using ne t by (simp add: last_rev)
  with l have 1: "\<not> isWhiteSpace (last (trim s))" by simp
  have ane: "?a \<noteq> []"
  proof
    assume e: "?a = []"
    have "?b = []" unfolding e by simp
    with ne show False by contradiction
  qed
  then have h: "\<not> isWhiteSpace (hd ?a)" by (metis hd_dropWhile)
  have "trim s = take (length ?a - length (takeWhile isWhiteSpace (rev ?a))) ?a"
    by (rule trim_as_take)
  with assms have "hd (trim s) = hd ?a"
    by (metis hd_take take_eq_Nil2 gr0I)
  with h 1 show ?thesis by simp
qed

lemma trim_fixed:
  assumes "t = [] \<or> (\<not> isWhiteSpace (hd t) \<and> \<not> isWhiteSpace (last t))"
  shows "trim t = t"
proof (cases "t = []")
  case True
  then show ?thesis by (simp add: trim_def)
next
  case False
  with assms have h: "\<not> isWhiteSpace (hd t)" and l: "\<not> isWhiteSpace (last t)" by auto
  have a: "dropWhile isWhiteSpace t = t" using False h by (rule dropWhile_fixed)
  have "hd (rev t) = last t" using False by (simp add: hd_rev)
  then have "dropWhile isWhiteSpace (rev t) = rev t"
    using False l by (intro dropWhile_fixed) simp_all
  with a show ?thesis by (simp add: trim_def)
qed

lemma normalize_idem:
  "trim (collapse_spaces (trim (collapse_spaces x))) = trim (collapse_spaces x)"
proof -
  let ?t = "trim (collapse_spaces x)"
  have "single_spaced ?t" by (intro single_spaced_trim single_spaced_collapse)
  then have "collapse_spaces ?t = ?t" by (rule collapse_single_spaced)
  moreover have "trim ?t = ?t" by (rule trim_fixed) (use trim_ends in blast)
  ultimately show ?thesis by simp
qed

section \<open>Element Classifier: proofs\<close>

lemma looksLikeHeadingText_normalized:
  assumes "t = trim (collapse_spaces x)"
  shows "looksLikeHeadingText t = heading_rule t"
proof -
  have n: "trim (collapse_spaces t) = t" unfolding assms by (rule normalize_idem)
  show ?thesis
  proof (cases "length t \<le> 2")
    case True
    then show ?thesis by (auto simp: looksLikeHeadingText_def n heading_rule_def)
  next
    case False
    then have "t \<noteq> []" by auto
    then have "at_last t = Some (last t)" by (simp add: at_last_def)
    then show ?thesis using False
      by (auto simp: looksLikeHeadingText_def n heading_rule_def Let_def mult.commute)
  qed
qed

lemma tag_p_div:
  assumes "tag = ascii ''p'' \<or> tag = ascii ''div''"
  shows "tag \<noteq> ascii ''table''" "tag \<noteq> ascii ''h1''" "tag \<noteq> ascii ''h2''" "tag \<noteq> ascii ''h3''"
  using assms by (auto simp: ascii_def)

text \<open>
  C7, as amended. Take a node whose lowered tag is \<^verbatim>\<open>p\<close> or \<^verbatim>\<open>div\<close> and whose
  whitespace-normalized plain text \<open>t\<close> is non-empty. The node adds exactly one element
  (behind the pageBreak its style may ask for), and that element is a level-2 heading with
  the escaped \<open>t\<close> as content if and only if \<open>t\<close> has more than 2 and at most 70
  characters, does not end in one of \<^verbatim>\<open>. ! ?\<close> or U+2026, and either holds at least
  \<open>min 6 (2 * length t div 5)\<close> letters of the class (A to Z and five Turkish capitals)
  or starts with digits and \<^verbatim>\<open>)\<close>, or with letters of \<^verbatim>\<open>IVX\<close> and a dot.
\<close>

theorem C7_promoted_heading:
  assumes "toLowerCase P tg = ascii ''p'' \<or> toLowerCase P tg = ascii ''div''"
    and "t = trim (collapse_spaces txt)"
    and "t \<noteq> []"
  shows "(heading_rule t \<longleftrightarrow>
            (\<exists>i. at_last (fst (walk P (Element tg st inner txt kids) (out, n)))
                    = Some (Heading i 2 (escapeHtml t))))
         \<and> (\<exists>x. fst (walk P (Element tg st inner txt kids) (out, n)) = out @ [x]
                 \<or> (\<exists>b. fst (walk P (Element tg st inner txt kids) (out, n)) = out @ [PageBreak b, x]))"
proof -
  note tg = tag_p_div[OF assms(1)]
  have h: "looksLikeHeadingText t = heading_rule t"
    by (rule looksLikeHeadingText_normalized[OF assms(2)])
  define style where "style = toLowerCase P (case st of None \<Rightarrow> [] | Some s \<Rightarrow> s)"
  define brk where "brk \<longleftrightarrow> includes_str style (ascii ''page-break-before'') \<and> includes_str style (ascii ''always'')"
  define out1 where "out1 = (if brk then out @ [PageBreak (uid P (ascii ''pb'') n)] else out)"
  define n1 where "n1 = (if brk then Suc n else n)"
  define x where "x = (if heading_rule t then Heading (uid P (ascii ''h'') n1) 2 (escapeHtml t)
       else if isLikelyCheckbox t then Checkbox (uid P (ascii ''cb'') n1) (trim inner)
       else Paragraph (uid P (ascii ''p'') n1) (trim inner))"
  have w: "walk P (Element tg st inner txt kids) (out, n) = (out1 @ [x], Suc n1)"
    using assms(1,3) tg h
    by (cases brk)
       (auto simp: Let_def assms(2)[symmetric] style_def[symmetric] brk_def[symmetric] out1_def n1_def x_def)
  have 1: "heading_rule t \<longleftrightarrow> (\<exists>i. at_last (out1 @ [x]) = Some (Heading i 2 (escapeHtml t)))"
    by (auto simp: at_last_def x_def)
  have 2: "\<exists>y. out1 @ [x] = out @ [y] \<or> (\<exists>b. out1 @ [x] = out @ [PageBreak b, y])"
    by (cases brk) (auto simp: out1_def)
  from 1 2 show ?thesis unfolding w by simp
qed

lemma demo_lower_P: "toLowerCase demo_platform (ascii ''P'') = ascii ''p''"
  by (simp add: demo_platform_def ascii_def)

lemmas string_eval =
  ascii_def trim_def isWhiteSpace_def isLineTerminator_def collapse_spaces_def replace_g_def
  m_spaces_def consumed_def at_last_def isSentenceEnd_def isCapital_def isDigit_def
  isRoman_def starts_digits_paren_def starts_roman_dot_def lit_def

lemma walk_demo_AB:
  "walk demo_platform (Element (ascii ''P'') None (ascii ''AB'') (ascii ''AB'') []) ([], 0)
     = ([Paragraph (ascii ''p_r_t'') (ascii ''AB'')], 1)"
  by (simp add: demo_platform_def looksLikeHeadingText_def isLikelyCheckbox_def startsWith_def
      uid_def string_eval)

lemma walk_demo_heading:
  "walk demo_platform (Element (ascii ''P'') None (ascii ''<b>1) GENEL</b>'') (ascii '' 1)  GENEL '') [])
       ([], 0)
     = ([Heading (ascii ''h_r_t'') 2 (ascii ''1) GENEL'')], 1)"
  by (simp add: demo_platform_def looksLikeHeadingText_def isLikelyCheckbox_def startsWith_def
      uid_def escapeHtml_def replace_char_def string_eval)


lemma demo_heading_text:
  "ascii ''1) GENEL'' = trim (collapse_spaces (ascii '' 1)  GENEL ''))"
  by (simp add: string_eval)

lemma demo_heading_rule: "heading_rule (ascii ''1) GENEL'')"
  by (simp add: heading_rule_def string_eval)

text \<open>A bold enumerated line, promoted to a heading without its markup.\<close>

theorem C7_promoted_heading_witness:
  "(toLowerCase demo_platform (ascii ''P'') = ascii ''p''
      \<or> toLowerCase demo_platform (ascii ''P'') = ascii ''div'')
   \<and> ascii ''1) GENEL'' = trim (collapse_spaces (ascii '' 1)  GENEL ''))
   \<and> ascii ''1) GENEL'' \<noteq> []
   \<and> heading_rule (ascii ''1) GENEL'')
   \<and> (\<exists>i. at_last (fst (walk demo_platform
              (Element (ascii ''P'') None (ascii ''<b>1) GENEL</b>'') (ascii '' 1)  GENEL '') [])
              ([], 0)))
         = Some (Heading i 2 (escapeHtml (ascii ''1) GENEL''))))"
proof -
  have a: "toLowerCase demo_platform (ascii ''P'') = ascii ''p''
      \<or> toLowerCase demo_platform (ascii ''P'') = ascii ''div''"
    using demo_lower_P by simp
  have c: "ascii ''1) GENEL'' \<noteq> []" by (simp add: ascii_def)
  from C7_promoted_heading [OF a demo_heading_text c, of None "ascii ''<b>1) GENEL</b>''" "[]" "[]" 0]
    a demo_heading_text c demo_heading_rule
  show ?thesis by blast
qed

text \<open>
  C7 as stated fails on the text \<^verbatim>\<open>AB\<close>: it is at most 70 characters long, does not end
  in punctuation and its two capitals are more than 40 percent of its length, and the
  node becomes a paragraph.
\<close>

theorem C7_two_capitals_counterexample:
  "toLowerCase demo_platform (ascii ''P'') = ascii ''p''
   \<and> trim (collapse_spaces (ascii ''AB'')) = ascii ''AB''
   \<and> ascii ''AB'' \<noteq> []
   \<and> length (ascii ''AB'') \<le> 70
   \<and> \<not> isSentenceEnd (last (ascii ''AB''))
   \<and> min 30 (2 * length (ascii ''AB'')) \<le> 5 * length (filter isCapital (ascii ''AB''))
   \<and> walk demo_platform (Element (ascii ''P'') None (ascii ''AB'') (ascii ''AB'') []) ([], 0)
       = ([Paragraph (ascii ''p_r_t'') (ascii ''AB'')], 1)"
  using demo_lower_P walk_demo_AB by (simp add: string_eval)

section \<open>Export Assembler: proofs\<close>

lemma splitIntoSentences_nonempty: "s \<in> set (splitIntoSentences text) \<Longrightarrow> s \<noteq> []"
  by (auto simp: splitIntoSentences_def Let_def split: if_splits)

lemma pick_sentences_in_range:
  assumes "\<forall>s\<in>set sents. s \<noteq> []"
  shows "pick_sentences sents idxs = map (\<lambda>idx. sents ! nat idx) (filter (in_range sents) (sort idxs))"
proof -
  have "List.map_filter
          (\<lambda>idx. case at_index sents idx of None \<Rightarrow> None | Some s \<Rightarrow> if s = [] then None else Some s) xs
        = map (\<lambda>idx. sents ! nat idx) (filter (in_range sents) xs)" for xs
  proof (induction xs)
    case Nil
    then show ?case by (simp add: List.map_filter_simps)
  next
    case (Cons x xs)
    show ?case
    proof (cases "in_range sents x")
      case True
      then have "nat x < length sents" by (simp add: in_range_def nat_less_iff)
      then have "sents ! nat x \<in> set sents" by (rule nth_mem)
      with assms have "sents ! nat x \<noteq> []" by blast
      with True Cons show ?thesis
        by (simp add: List.map_filter_simps at_index_def in_range_def)
    next
      case False
      with Cons show ?thesis
        by (simp add: List.map_filter_simps at_index_def in_range_def)
    qed
  qed
  then show ?thesis by (simp add: pick_sentences_def)
qed

lemma join_Nil_iff: "join sep xs = [] \<Longrightarrow> xs = [] \<or> (\<forall>x\<in>set xs. x = []) "
  by (induction sep xs rule: join.induct) auto

lemma export_text_entry:
  "export_text hl i text exported
     = exported @ (case spec_entry_text hl i text of None \<Rightarrow> [] | Some x \<Rightarrow> [x])"
proof (cases "hl i")
  case None
  then show ?thesis by (simp add: export_text_def spec_entry_text_def)
next
  case (Some e)
  let ?sents = "splitIntoSentences text"
  have p: "pick_sentences ?sents (sentences e)
           = map (\<lambda>idx. ?sents ! nat idx) (filter (in_range ?sents) (sort (sentences e)))"
    by (rule pick_sentences_in_range) (use splitIntoSentences_nonempty in blast)
  have e: "trim (collapse_spaces (join (ascii '' '') (map strip_tags []))) = []"
    by (simp add: trim_def)
  show ?thesis
    using Some e by (auto simp: export_text_def spec_entry_text_def p Let_def)
qed

lemma export_element_entry:
  "export_element hl el exported
     = exported @ (case spec_export_entry hl el of None \<Rightarrow> [] | Some x \<Rightarrow> [x])"
  by (cases el) (simp_all add: export_text_entry)

lemma fold_export_element:
  "fold (export_element hl) els exported = exported @ List.map_filter (spec_export_entry hl) els"
  by (induction els arbitrary: exported)
     (auto simp: export_element_entry List.map_filter_simps split: option.splits)

lemma fold_pages_export:
  "fold (\<lambda>pageEls exported. fold (export_element hl) pageEls exported) ps exported
     = exported @ List.map_filter (spec_export_entry hl) (concat ps)"
proof (induction ps arbitrary: exported)
  case Nil
  then show ?case by (simp add: List.map_filter_simps)
next
  case (Cons p ps)
  have "List.map_filter (spec_export_entry hl) (p @ concat ps)
        = List.map_filter (spec_export_entry hl) p @ List.map_filter (spec_export_entry hl) (concat ps)"
    by (simp add: List.map_filter_def)
  then show ?case using Cons by (simp add: fold_export_element)
qed

lemma pages_returns: "\<exists>ps. pages st = Inr ps"
proof (cases "currentDoc st")
  case None
  then show ?thesis by (simp add: pages_def)
next
  case (Some d)
  from splitElementsIntoPages_returns[of "elements d"] Some show ?thesis by (simp add: pages_def)
qed

lemma getAllHighlightedText_entries:
  assumes "pages st = Inr ps"
  shows "getAllHighlightedText st = Inr (List.map_filter (spec_export_entry (highlights st)) (concat ps))"
proof (cases "currentDoc st")
  case None
  with assms have "ps = []" by (simp add: pages_def)
  with None show ?thesis by (simp add: getAllHighlightedText_def List.map_filter_simps)
next
  case (Some d)
  with assms show ?thesis
    by (simp add: getAllHighlightedText_def fold_pages_export)
qed


lemma abs_toggleSentence:
  "abs_highlights (toggleSentence k i hl) = abs_toggle (k, i) (abs_highlights hl)"
proof (rule ext)
  fix x
  define xs where "xs = sentences (case hl k of None \<Rightarrow> empty_entry | Some e \<Rightarrow> e)"
  define ys where "ys = (if i \<in> set xs then filter (\<lambda>j. j \<noteq> i) xs else xs @ [i])"
  have t: "toggleSentence k i hl = hl(k \<mapsto> \<lparr>sentences = ys, hasHighlight = (length ys > 0)\<rparr>)"
    by (simp add: toggleSentence_def Let_def xs_def ys_def)
  have m: "(case abs_highlights hl k of None \<Rightarrow> {#} | Some mh \<Rightarrow> fst mh) = mset xs"
    by (simp add: abs_highlights_def xs_def empty_entry_def split: option.splits)
  have y: "(if i \<in># mset xs then filter_mset (\<lambda>j. j \<noteq> i) (mset xs) else add_mset i (mset xs))
           = mset ys"
    by (simp add: ys_def)
  have a: "abs_toggle (k, i) (abs_highlights hl)
           = (abs_highlights hl)(k \<mapsto> (mset ys, mset ys \<noteq> {#}))"
    unfolding abs_toggle_def Let_def fst_conv snd_conv m y by (rule refl)
  show "abs_highlights (toggleSentence k i hl) x = abs_toggle (k, i) (abs_highlights hl) x"
    unfolding a t by (simp add: abs_highlights_def)
qed

lemma abs_toggle_commute: "abs_toggle x \<circ> abs_toggle y = abs_toggle y \<circ> abs_toggle x"
proof (rule ext)
  fix a
  obtain k i where x: "x = (k, i)" by (cases x)
  obtain l j where y: "y = (l, j)" by (cases y)
  show "(abs_toggle x \<circ> abs_toggle y) a = (abs_toggle y \<circ> abs_toggle x) a"
  proof (cases "k = l")
    case False
    then show ?thesis unfolding x y
      by (auto simp: abs_toggle_def Let_def fun_upd_twist)
  next
    case True
    show ?thesis
    proof (cases "i = j")
      case e: True
      with True show ?thesis unfolding x y by simp
    next
      case False
      have "filter_mset (\<lambda>n. n \<noteq> i) (filter_mset (\<lambda>n. n \<noteq> j) m)
            = filter_mset (\<lambda>n. n \<noteq> j) (filter_mset (\<lambda>n. n \<noteq> i) m)" for m :: "int multiset"
        by (simp add: filter_filter_mset conj_commute)
      moreover have "\<exists>n. (n = i \<or> n \<in># m) \<and> n \<noteq> j" for m :: "int multiset"
        using False by auto
      moreover have "\<exists>n. (n = j \<or> n \<in># m) \<and> n \<noteq> i" for m :: "int multiset"
        using False by auto
      ultimately show ?thesis using True False unfolding x y
        by (auto simp: abs_toggle_def Let_def add_mset_commute)
    qed
  qed
qed

lemma fold_abs_toggle:
  "abs_highlights (fold (\<lambda>ki. toggleSentence (fst ki) (snd ki)) cs hl)
     = fold abs_toggle cs (abs_highlights hl)"
  by (induction cs arbitrary: hl) (simp_all add: abs_toggleSentence)

lemma fold_abs_toggle_permuted:
  "mset cs = mset cs' \<Longrightarrow> fold abs_toggle cs = fold abs_toggle cs'"
  by (rule fold_multiset_equiv) (simp_all add: abs_toggle_commute)

lemma export_entry_abs:
  assumes "abs_highlights hl = abs_highlights hl'"
  shows "spec_export_entry hl el = spec_export_entry hl' el"
proof -
  have "spec_entry_text hl i tx = spec_entry_text hl' i tx" for i tx
  proof -
    from assms have a: "abs_highlights hl i = abs_highlights hl' i" by simp
    show ?thesis
    proof (cases "hl i")
      case None
      with a show ?thesis by (simp add: abs_highlights_def spec_entry_text_def)
    next
      case (Some e)
      with a obtain e' where e': "hl' i = Some e'" "mset (sentences e) = mset (sentences e')"
        "hasHighlight e = hasHighlight e'"
        by (cases "hl' i") (auto simp: abs_highlights_def)
      from e'(2) have "sort (sentences e) = sort (sentences e')"
        by (metis sorted_list_of_multiset_mset)
      with Some e' show ?thesis by (simp add: spec_entry_text_def)
    qed
  qed
  then show ?thesis by (cases el) simp_all
qed

lemma currentDoc_apply_store_op [simp]: "currentDoc (apply_store_op x st) = currentDoc st"
  by (cases x) (simp_all add: handleSentenceClick_def handleCellClick_def clearHighlights_def)

lemma currentDoc_run_store_ops [simp]: "currentDoc (run_store_ops ops st) = currentDoc st"
  unfolding run_store_ops_def by (induction ops arbitrary: st) simp_all

lemma pages_run_store_ops [simp]: "pages (run_store_ops ops st) = pages st"
  by (simp add: pages_def)

lemma highlights_sentence_clicks:
  "highlights (run_store_ops (sentence_clicks cs) st)
     = (case currentDoc st of
          None \<Rightarrow> Map.empty
        | Some d \<Rightarrow> fold (\<lambda>ki. toggleSentence (fst ki) (snd ki)) cs (highlights st))"
proof (induction cs arbitrary: st)
  case Nil
  then show ?case
    by (simp add: run_store_ops_def sentence_clicks_def highlights_def split: option.splits)
next
  case (Cons c cs)
  have "run_store_ops (sentence_clicks (c # cs)) st
        = run_store_ops (sentence_clicks cs) (handleSentenceClick (fst c) (snd c) st)"
    by (simp add: run_store_ops_def sentence_clicks_def)
  then show ?case
    by (simp add: Cons handleSentenceClick_def highlights_setHighlights split: option.splits)
qed

lemma export_sentence_clicks_permuted:
  assumes "mset cs = mset cs'"
  shows "getAllHighlightedText (run_store_ops (sentence_clicks cs) st)
         = getAllHighlightedText (run_store_ops (sentence_clicks cs') st)"
proof -
  obtain ps where ps: "pages st = Inr ps" using pages_returns by blast
  let ?h = "\<lambda>cs. highlights (run_store_ops (sentence_clicks cs) st)"
  have "abs_highlights (?h cs) = abs_highlights (?h cs')"
    using fold_abs_toggle_permuted[OF assms]
    by (simp add: highlights_sentence_clicks fold_abs_toggle split: option.splits)
  then have "spec_export_entry (?h cs) el = spec_export_entry (?h cs') el" for el
    by (rule export_entry_abs)
  then have "List.map_filter (spec_export_entry (?h cs)) (concat ps)
             = List.map_filter (spec_export_entry (?h cs')) (concat ps)"
    by (simp add: List.map_filter_def)
  then show ?thesis
    using ps by (simp add: getAllHighlightedText_entries)
qed


text \<open>
  C8. The export never fails, and it is the list of the export entries of the elements in
  page order and, in a page, in element order: one entry for each element that
  contributes (\<open>spec_export_entry\<close>: the selected sentences in ascending index order,
  joined with a single space). Two sequences of sentence clicks that differ only in their
  order give the same export.
\<close>

theorem C8_export_in_document_order:
  "(\<exists>ps. pages st = Inr ps
      \<and> getAllHighlightedText st
          = Inr (List.map_filter (spec_export_entry (highlights st)) (concat ps)))
   \<and> (mset cs = mset cs' \<longrightarrow>
        getAllHighlightedText (run_store_ops (sentence_clicks cs) st)
        = getAllHighlightedText (run_store_ops (sentence_clicks cs') st))"
  using pages_returns[of st] getAllHighlightedText_entries[of st]
    export_sentence_clicks_permuted[of cs cs' st]
  by blast

lemmas segment_eval =
  splitIntoSentences_def trim_def ascii_def boundary_at_def isSentenceEnd_def isWhiteSpace_def
  isLineTerminator_def at_last_def isLoneMark_def transformText_def replace_g_def m_arrow_def
  m_bullet_def m_line_mark_def m_br_mark_def m_timeUnits_def m_timeExpressions_def lit_def
  lit_ci_def opt_lit_def ws_star_def digits1_def isDigit_def at_line_start_def
  canonicalize_def consumed_def

lemma demo_sentences_p:
  "splitIntoSentences (ascii ''Hello world. This is a test.'')
     = [ascii ''Hello world.'', ascii ''This is a test.'']"
  by (simp add: segment_eval)

lemma demo_sentences_cb:
  "splitIntoSentences (ascii ''One. <b>Two!</b> Three? Four.'')
     = [ascii ''One.'', ascii ''<b>Two!</b> Three?'', ascii ''Four.'']"
  by (simp add: segment_eval)

lemma currentDoc_demo_doc: "currentDoc demo_doc_state = Some demo_doc"
  by (simp add: demo_doc_state_def demo_doc_def currentDoc_def)

lemma highlights_demo_doc: "highlights demo_doc_state = Map.empty"
  by (simp add: highlights_def currentDoc_demo_doc) (simp add: demo_doc_state_def)

lemma pages_demo_doc:
  "pages demo_doc_state
     = Inr [[Paragraph (ascii ''p_1'') (ascii ''Hello world. This is a test.'')],
            [Checkbox (ascii ''cb_1'') (ascii ''One. <b>Two!</b> Three? Four.'')]]"
  by (simp add: pages_def currentDoc_demo_doc)
     (simp add: demo_doc_def splitElementsIntoPages_def push_last_def at_last_def)

lemmas plain_eval =
  trim_def collapse_spaces_def replace_g_def m_spaces_def strip_tags_def m_tag_def lit_def
  consumed_def isWhiteSpace_def isLineTerminator_def at_last_def ascii_def

lemma demo_export:
  "getAllHighlightedText
     (run_store_ops
        (sentence_clicks [(ascii ''cb_1'', 2), (ascii ''p_1'', 1), (ascii ''cb_1'', 1), (ascii ''p_1'', 0)])
        demo_doc_state)
   = Inr [ascii ''Hello world. This is a test.'', ascii ''Two! Three? Four.'']"
proof -
  let ?st = "run_store_ops
        (sentence_clicks [(ascii ''cb_1'', 2), (ascii ''p_1'', 1), (ascii ''cb_1'', 1), (ascii ''p_1'', 0)])
        demo_doc_state"
  have c: "ascii ''cb_1'' \<noteq> ascii ''p_1''" by (simp add: ascii_def)
  have h1: "highlights ?st (ascii ''p_1'') = Some \<lparr>sentences = [1, 0], hasHighlight = True\<rparr>"
    using c by (simp add: highlights_sentence_clicks currentDoc_demo_doc highlights_demo_doc
        toggleSentence_def empty_entry_def Let_def)
  have h2: "highlights ?st (ascii ''cb_1'') = Some \<lparr>sentences = [2, 1], hasHighlight = True\<rparr>"
    using c by (simp add: highlights_sentence_clicks currentDoc_demo_doc highlights_demo_doc
        toggleSentence_def empty_entry_def Let_def)
  have e1: "spec_entry_text (highlights ?st) (ascii ''p_1'') (ascii ''Hello world. This is a test.'')
            = Some (ascii ''Hello world. This is a test.'')"
    unfolding spec_entry_text_def h1 demo_sentences_p
    by (simp add: in_range_def) (simp add: plain_eval)
  have e2: "spec_entry_text (highlights ?st) (ascii ''cb_1'') (ascii ''One. <b>Two!</b> Three? Four.'')
            = Some (ascii ''Two! Three? Four.'')"
    unfolding spec_entry_text_def h2 demo_sentences_cb
    by (simp add: in_range_def) (simp add: plain_eval)
  have p: "pages ?st = Inr [[Paragraph (ascii ''p_1'') (ascii ''Hello world. This is a test.'')],
            [Checkbox (ascii ''cb_1'') (ascii ''One. <b>Two!</b> Three? Four.'')]]"
    by (simp add: pages_demo_doc)
  show ?thesis
    unfolding getAllHighlightedText_entries[OF p]
    by (simp add: List.map_filter_simps e1 e2)
qed

text \<open>Four clicks on the two-page document, in two orders.\<close>

theorem C8_export_in_document_order_witness:
  "mset [(ascii ''cb_1'', 2), (ascii ''p_1'', 1), (ascii ''cb_1'', 1), (ascii ''p_1'', 0::int)]
     = mset [(ascii ''p_1'', 0), (ascii ''p_1'', 1), (ascii ''cb_1'', 1), (ascii ''cb_1'', 2)]
   \<and> getAllHighlightedText
        (run_store_ops
           (sentence_clicks [(ascii ''p_1'', 0), (ascii ''p_1'', 1), (ascii ''cb_1'', 1), (ascii ''cb_1'', 2)])
           demo_doc_state)
      = Inr [ascii ''Hello world. This is a test.'', ascii ''Two! Three? Four.'']"
proof -
  have m: "mset [(ascii ''cb_1'', 2), (ascii ''p_1'', 1), (ascii ''cb_1'', 1), (ascii ''p_1'', 0::int)]
     = mset [(ascii ''p_1'', 0), (ascii ''p_1'', 1), (ascii ''cb_1'', 1), (ascii ''cb_1'', 2)]"
    by (simp add: add_mset_commute)
  from C8_export_in_document_order
         [of demo_doc_state
             "[(ascii ''cb_1'', 2), (ascii ''p_1'', 1), (ascii ''cb_1'', 1), (ascii ''p_1'', 0)]"
             "[(ascii ''p_1'', 0), (ascii ''p_1'', 1), (ascii ''cb_1'', 1), (ascii ''cb_1'', 2)]"]
    m demo_export
  show ?thesis by simp
qed


lemma entry_text_in_range:
  assumes "hl i = Some e"
  shows "spec_entry_text (hl(i \<mapsto> e\<lparr>sentences := filter (in_range (splitIntoSentences tx)) (sentences e)\<rparr>)) i tx
         = spec_entry_text hl i tx"
proof -
  let ?P = "in_range (splitIntoSentences tx)"
  have "filter ?P (sort (filter ?P (sentences e))) = filter ?P (sort (sentences e))"
    by (simp add: filter_sort[symmetric])
  then show ?thesis using assms by (simp add: spec_entry_text_def)
qed

lemma entry_text_none_in_range:
  assumes "hl i = Some e" and "\<forall>idx\<in>set (sentences e). \<not> in_range (splitIntoSentences tx) idx"
  shows "spec_entry_text hl i tx = None"
proof -
  have "filter (in_range (splitIntoSentences tx)) (sort (sentences e)) = []"
    using assms(2) by (simp add: filter_empty_conv)
  then show ?thesis using assms(1) by (simp add: spec_entry_text_def trim_def)
qed

lemma getAllHighlightedText_returns: "\<exists>ex. getAllHighlightedText st = Inr ex"
  using pages_returns[of st] getAllHighlightedText_entries[of st] by blast

text \<open>
  C10. For an element with a highlight entry, the export step gives what it gives when the
  indices outside of the element's current sentence sequence (negative, or behind the
  last sentence) are removed from the entry; when every selected index is outside, the
  step adds no entry. The export as a whole returns a list: nothing in it fails.
\<close>

theorem C10_out_of_range_indices_ignored:
  assumes "hl i = Some e"
  shows "export_text hl i tx exported
           = export_text
               (hl(i \<mapsto> e\<lparr>sentences := filter (in_range (splitIntoSentences tx)) (sentences e)\<rparr>))
               i tx exported
         \<and> ((\<forall>idx\<in>set (sentences e). \<not> in_range (splitIntoSentences tx) idx) \<longrightarrow>
              export_text hl i tx exported = exported)
         \<and> (\<exists>ex. getAllHighlightedText st = Inr ex)"
  using entry_text_in_range[of hl i e tx] entry_text_none_in_range[of hl i e tx] assms
    getAllHighlightedText_returns[of st]
  by (simp add: export_text_entry)

text \<open>A text of two sentences with the selections \<open>[7, -1, 1]\<close> and \<open>[2, -3]\<close>.\<close>

theorem C10_out_of_range_indices_ignored_witness:
  "[ascii ''p_1'' \<mapsto> \<lparr>sentences = [7, - 1, 1], hasHighlight = True\<rparr>] (ascii ''p_1'')
     = Some \<lparr>sentences = [7, - 1, 1], hasHighlight = True\<rparr>
   \<and> export_text [ascii ''p_1'' \<mapsto> \<lparr>sentences = [7, - 1, 1], hasHighlight = True\<rparr>]
         (ascii ''p_1'') (ascii ''Hello world. This is a test.'') []
       = [ascii ''This is a test.'']
   \<and> export_text [ascii ''p_1'' \<mapsto> \<lparr>sentences = [1], hasHighlight = True\<rparr>]
         (ascii ''p_1'') (ascii ''Hello world. This is a test.'') []
       = [ascii ''This is a test.'']
   \<and> export_text [ascii ''p_1'' \<mapsto> \<lparr>sentences = [2, - 3], hasHighlight = True\<rparr>]
         (ascii ''p_1'') (ascii ''Hello world. This is a test.'') []
       = []"
proof -
  let ?tx = "ascii ''Hello world. This is a test.''"
  let ?e = "\<lparr>sentences = [7, - 1, 1], hasHighlight = True\<rparr>"
  let ?f = "\<lparr>sentences = [2, - 3], hasHighlight = True\<rparr>"
  have a: "[ascii ''p_1'' \<mapsto> ?e] (ascii ''p_1'') = Some ?e" by simp
  have b: "[ascii ''p_1'' \<mapsto> ?f] (ascii ''p_1'') = Some ?f" by simp
  have r: "filter (in_range (splitIntoSentences ?tx)) [7, - 1, 1] = [1]"
    by (simp add: demo_sentences_p in_range_def)
  have n: "\<forall>idx\<in>set (sentences ?f). \<not> in_range (splitIntoSentences ?tx) idx"
    by (simp add: demo_sentences_p in_range_def)
  have x: "export_text [ascii ''p_1'' \<mapsto> \<lparr>sentences = [1], hasHighlight = True\<rparr>]
         (ascii ''p_1'') ?tx [] = [ascii ''This is a test.'']"
    unfolding export_text_entry spec_entry_text_def demo_sentences_p
    by (simp add: in_range_def) (simp add: plain_eval)
  have u: "[ascii ''p_1'' \<mapsto> ?e](ascii ''p_1'' \<mapsto>
             ?e\<lparr>sentences := filter (in_range (splitIntoSentences ?tx)) (sentences ?e)\<rparr>)
           = [ascii ''p_1'' \<mapsto> \<lparr>sentences = [1], hasHighlight = True\<rparr>]"
    using r by simp
  note t1 = C10_out_of_range_indices_ignored
         [of "[ascii ''p_1'' \<mapsto> ?e]" "ascii ''p_1''" ?e ?tx "[]" demo_doc_state, OF a]
  note t2 = C10_out_of_range_indices_ignored
         [of "[ascii ''p_1'' \<mapsto> ?f]" "ascii ''p_1''" ?f ?tx "[]" demo_doc_state, OF b]
  from t1 have 1: "export_text [ascii ''p_1'' \<mapsto> ?e] (ascii ''p_1'') ?tx []
                   = [ascii ''This is a test.'']"
    unfolding u x by (rule conjunct1)
  from t2 n have 2: "export_text [ascii ''p_1'' \<mapsto> ?f] (ascii ''p_1'') ?tx [] = []"
    by blast
  from a 1 x 2 show ?thesis by (intro conjI)
qed

section \<open>Sentence Segmenter: proofs\<close>

lemma sentence_end_not_space: "isSentenceEnd c \<Longrightarrow> \<not> isWhiteSpace c"
  by (auto simp: isSentenceEnd_def isWhiteSpace_def isLineTerminator_def)

lemma split_sentences_no_space:
  assumes "s = [] \<or> \<not> isWhiteSpace (hd s)"
  shows "split_sentences prev cur s = split_sentences None cur s"
proof (cases s)
  case Nil
  then show ?thesis by simp
next
  case (Cons c cs)
  with assms have "\<not> isWhiteSpace c" by simp
  then show ?thesis unfolding Cons by (simp add: boundary_at_def)
qed

lemma dropWhile_keeps_last:
  "xs \<noteq> [] \<Longrightarrow> \<not> P (last xs) \<Longrightarrow> dropWhile P xs \<noteq> [] \<and> last (dropWhile P xs) = last xs"
  by (induction xs) (auto split: if_splits)

lemma split_sentences_compose:
  assumes "u \<noteq> []" "isSentenceEnd (last u)" "w \<noteq> []" "\<forall>c\<in>set w. isWhiteSpace c"
    "v \<noteq> []" "\<not> isWhiteSpace (hd v)"
  shows "split_sentences prev cur (u @ w @ v)
           = split_sentences prev cur u @ split_sentences None [] v"
  using assms(1,2)
proof (induction "length u" arbitrary: u prev cur rule: less_induct)
  case less
  have lu: "\<not> isWhiteSpace (last u)" using less.prems(2) by (rule sentence_end_not_space)
  have wv: "takeWhile isWhiteSpace (w @ v) = w" "dropWhile isWhiteSpace (w @ v) = v"
    using assms(4,5,6) by (cases v; simp add: takeWhile_append2 dropWhile_append2)+
  obtain c u' where u: "u = c # u'" using less.prems(1) by (cases u) auto
  show ?case
  proof (cases "u' = []")
    case True
    then have c: "isSentenceEnd c" "\<not> isWhiteSpace c" using less.prems(2) lu u by simp_all
    obtain x w' where w: "w = x # w'" using assms(3) by (cases w) auto
    have b: "boundary_at (Some c) (x # w' @ v)"
      using c(1) wv assms(3,5) unfolding w by (simp add: boundary_at_def)
    have d: "dropWhile isWhiteSpace (w' @ v) = v"
      using wv(2) assms(4) unfolding w by simp
    have "split_sentences prev cur (u @ w @ v)
          = (cur @ [c]) # split_sentences (at_last (takeWhile isWhiteSpace (x # w' @ v))) [] v"
      unfolding u True w using c(2) b d by (simp add: boundary_at_def)
    also have "\<dots> = (cur @ [c]) # split_sentences None [] v"
      using assms(6) by (subst split_sentences_no_space) simp_all
    also have "\<dots> = split_sentences prev cur u @ split_sentences None [] v"
      unfolding u True using c(2) by (simp add: boundary_at_def)
    finally show ?thesis .
  next
    case False
    then have l': "last u' = last u" unfolding u by simp
    have e: "last u' \<in> set u'" "\<not> isWhiteSpace (last u')"
      using last_in_set[OF False] l' lu by simp_all
    have e2: "last u' \<in> set (c # u')" using e(1) by simp
    have t: "takeWhile isWhiteSpace (c # u' @ w @ v) = takeWhile isWhiteSpace (c # u')"
      using takeWhile_append1[where P=isWhiteSpace and x="last u'" and xs="c # u'" and ys="w @ v"] e2 e(2)
      by simp
    have d: "dropWhile isWhiteSpace (c # u' @ w @ v) = dropWhile isWhiteSpace (c # u') @ w @ v"
      using dropWhile_append1[where P=isWhiteSpace and x="last u'" and xs="c # u'" and ys="w @ v"] e2 e(2)
      by simp
    have d': "dropWhile isWhiteSpace (u' @ w @ v) = dropWhile isWhiteSpace u' @ w @ v"
      using dropWhile_append1[where P=isWhiteSpace and x="last u'" and xs="u'" and ys="w @ v"] e
      by simp
    have t': "takeWhile isWhiteSpace (u' @ w @ v) = takeWhile isWhiteSpace u'"
      using takeWhile_append1[where P=isWhiteSpace and x="last u'" and xs="u'" and ys="w @ v"] e
      by simp
    have dn: "dropWhile isWhiteSpace (c # u') \<noteq> []"
      using dropWhile_keeps_last[of "c # u'" isWhiteSpace] lu u by simp
    have bb: "boundary_at prev (c # u' @ w @ v) = boundary_at prev (c # u')"
      unfolding boundary_at_def t d using dn by simp
    show ?thesis
    proof (cases "boundary_at prev (c # u')")
      case True
      let ?u = "dropWhile isWhiteSpace u'"
      have k: "?u \<noteq> []" "last ?u = last u'"
        using dropWhile_keeps_last[where P=isWhiteSpace and xs=u'] False e(2) by simp_all
      have len: "length ?u < length u"
        unfolding u by (simp add: le_imp_less_Suc length_dropWhile_le)
      have se: "isSentenceEnd (last ?u)" using k(2) l' less.prems(2) by simp
      note ih = less.hyps[OF len k(1) se]
      show ?thesis
        unfolding u using True bb by (simp add: t' d' ih)
    next
      case F: False
      have len: "length u' < length u" unfolding u by simp
      have se: "isSentenceEnd (last u')" using l' less.prems(2) by simp
      note ih = less.hyps[OF len False se]
      show ?thesis
        unfolding u using F bb by (simp add: ih)
    qed
  qed
qed

lemma split_sentences_single:
  assumes "\<not> (\<exists>i. Suc i < length s \<and> isSentenceEnd (s ! i) \<and> isWhiteSpace (s ! Suc i))"
    and "\<not> ((case prev of None \<Rightarrow> False | Some p \<Rightarrow> isSentenceEnd p) \<and> s \<noteq> [] \<and> isWhiteSpace (hd s))"
  shows "split_sentences prev cur s = [cur @ s]"
  using assms
proof (induction s arbitrary: prev cur)
  case Nil
  then show ?case by simp
next
  case (Cons c cs)
  have nb: "\<not> boundary_at prev (c # cs)"
    using Cons.prems(2) by (auto simp: boundary_at_def split: option.splits)
  have 1: "\<not> (\<exists>i. Suc i < length cs \<and> isSentenceEnd (cs ! i) \<and> isWhiteSpace (cs ! Suc i))"
  proof
    assume "\<exists>i. Suc i < length cs \<and> isSentenceEnd (cs ! i) \<and> isWhiteSpace (cs ! Suc i)"
    then obtain i where "Suc i < length cs" "isSentenceEnd (cs ! i)" "isWhiteSpace (cs ! Suc i)"
      by blast
    then have "Suc (Suc i) < length (c # cs) \<and> isSentenceEnd ((c # cs) ! Suc i)
                 \<and> isWhiteSpace ((c # cs) ! Suc (Suc i))" by simp
    with Cons.prems(1) show False by blast
  qed
  have 2: "\<not> ((case Some c of None \<Rightarrow> False | Some p \<Rightarrow> isSentenceEnd p) \<and> cs \<noteq> []
               \<and> isWhiteSpace (hd cs))"
  proof
    assume a: "(case Some c of None \<Rightarrow> False | Some p \<Rightarrow> isSentenceEnd p) \<and> cs \<noteq> []
               \<and> isWhiteSpace (hd cs)"
    then have "Suc 0 < length (c # cs) \<and> isSentenceEnd ((c # cs) ! 0)
                 \<and> isWhiteSpace ((c # cs) ! Suc 0)"
      by (cases cs) auto
    with Cons.prems(1) show False by blast
  qed
  from Cons.IH[OF 1 2, of "cur @ [c]"] nb show ?case by simp
qed

lemma trim_trim: "trim (trim s) = trim s"
  by (rule trim_fixed) (use trim_ends in blast)

lemma splitIntoSentences_trim: "splitIntoSentences s = splitIntoSentences (trim s)"
  by (simp add: splitIntoSentences_def trim_trim)

lemma splitIntoSentences_blank:
  assumes "\<forall>c\<in>set s. isWhiteSpace c"
  shows "splitIntoSentences s = []"
proof -
  have d: "dropWhile isWhiteSpace s = []" using assms by (induction s) auto
  have "trim s = []" unfolding trim_def d by simp
  then show ?thesis by (simp add: splitIntoSentences_def)
qed

lemma splitIntoSentences_at_boundary:
  assumes "u \<noteq> []" "\<not> isWhiteSpace (hd u)" "isSentenceEnd (last u)"
    "w \<noteq> []" "\<forall>c\<in>set w. isWhiteSpace c"
    "v \<noteq> []" "\<not> isWhiteSpace (hd v)" "\<not> isWhiteSpace (last v)"
  shows "splitIntoSentences (u @ w @ v) = splitIntoSentences u @ splitIntoSentences v"
proof -
  have lu: "\<not> isWhiteSpace (last u)" using assms(3) by (rule sentence_end_not_space)
  have tu: "trim u = u" using assms(2) lu by (intro trim_fixed) simp
  have tv: "trim v = v" using assms(7,8) by (intro trim_fixed) simp
  have "hd (u @ w @ v) = hd u" "last (u @ w @ v) = last v" using assms(1,6) by simp_all
  then have ta: "trim (u @ w @ v) = u @ w @ v" using assms(2,8) by (intro trim_fixed) simp
  have c: "split_sentences None [] (u @ w @ v)
           = split_sentences None [] u @ split_sentences None [] v"
    by (rule split_sentences_compose[OF assms(1,3,4,5,6,7)])
  show ?thesis
    using assms(1,6) by (simp add: splitIntoSentences_def ta tu tv c)
qed

lemma splitIntoSentences_single:
  assumes "s \<noteq> []" "\<not> isWhiteSpace (hd s)" "\<not> isWhiteSpace (last s)"
    and "\<not> (\<exists>i. Suc i < length s \<and> isSentenceEnd (s ! i) \<and> isWhiteSpace (s ! Suc i))"
  shows "splitIntoSentences s
           = filter (\<lambda>p. p \<noteq> [])
               [if length s = 1 \<and> isLoneMark (hd s) then [] else transformText s]"
proof -
  have ts: "trim s = s" using assms(2,3) by (intro trim_fixed) simp
  have sp: "split_sentences None [] s = [s]"
    using split_sentences_single[OF assms(4), of None "[]"] by simp
  have lm: "length s = 1 \<Longrightarrow> list_ex isLoneMark s = isLoneMark (hd s)"
    by (cases s) auto
  show ?thesis
    using assms(1) lm by (auto simp: splitIntoSentences_def ts sp)
qed


text \<open>
  C6. The segmenter returns the two sentences of Scenario A. It returns the empty sequence
  for an input that is empty or whitespace only, and trims its input first. In a trimmed
  text it splits where a sentence-ending character is followed by whitespace and a
  character that is not whitespace: the parts \<open>u\<close> before and \<open>v\<close> behind the
  whitespace \<open>w\<close> are segmented on their own, \<open>w\<close> is dropped and the terminator
  stays at the end of \<open>u\<close>. A trimmed text without a sentence-ending character in front
  of whitespace is one sentence (transformed; dropped when it is a lone bracket, dash or
  colon).
\<close>

theorem C6_sentence_segmenter:
  "splitIntoSentences (ascii ''Hello world. This is a test.'')
     = [ascii ''Hello world.'', ascii ''This is a test.'']
   \<and> ((\<forall>c\<in>set s. isWhiteSpace c) \<longrightarrow> splitIntoSentences s = [])
   \<and> splitIntoSentences s = splitIntoSentences (trim s)
   \<and> (u \<noteq> [] \<and> \<not> isWhiteSpace (hd u) \<and> isSentenceEnd (last u)
        \<and> w \<noteq> [] \<and> (\<forall>c\<in>set w. isWhiteSpace c)
        \<and> v \<noteq> [] \<and> \<not> isWhiteSpace (hd v) \<and> \<not> isWhiteSpace (last v) \<longrightarrow>
        splitIntoSentences (u @ w @ v) = splitIntoSentences u @ splitIntoSentences v)
   \<and> (t \<noteq> [] \<and> \<not> isWhiteSpace (hd t) \<and> \<not> isWhiteSpace (last t)
        \<and> \<not> (\<exists>i. Suc i < length t \<and> isSentenceEnd (t ! i) \<and> isWhiteSpace (t ! Suc i)) \<longrightarrow>
        splitIntoSentences t
          = filter (\<lambda>p. p \<noteq> [])
              [if length t = 1 \<and> isLoneMark (hd t) then [] else transformText t])"
  using demo_sentences_p splitIntoSentences_blank[of s] splitIntoSentences_trim[of s]
    splitIntoSentences_at_boundary[of u w v] splitIntoSentences_single[of t]
  by blast

lemma transformText_Hi: "transformText (ascii ''Hi.'') = ascii ''Hi.''"
  by (simp add: segment_eval)

lemma no_break_Hi:
  "\<not> (\<exists>i. Suc i < length (ascii ''Hi.'') \<and> isSentenceEnd (ascii ''Hi.'' ! i)
          \<and> isWhiteSpace (ascii ''Hi.'' ! Suc i))"
proof
  assume "\<exists>i. Suc i < length (ascii ''Hi.'') \<and> isSentenceEnd (ascii ''Hi.'' ! i)
          \<and> isWhiteSpace (ascii ''Hi.'' ! Suc i)"
  then obtain i where i: "Suc i < length (ascii ''Hi.'')" "isSentenceEnd (ascii ''Hi.'' ! i)"
    by blast
  from i(1) have "i = 0 \<or> i = 1" by (auto simp: ascii_def)
  with i(2) show False by (auto simp: ascii_def isSentenceEnd_def)
qed

text \<open>A blank input, an untrimmed one, the two parts of Scenario A, and a single sentence.\<close>

theorem C6_sentence_segmenter_witness:
  "isWhiteSpace 0x20 \<and> isWhiteSpace 0x0A \<and> splitIntoSentences [0x20, 0x0A] = []
   \<and> splitIntoSentences (ascii '' Hi. '') = splitIntoSentences (trim (ascii '' Hi. ''))
   \<and> ascii ''Hello world.'' \<noteq> [] \<and> \<not> isWhiteSpace (hd (ascii ''Hello world.''))
   \<and> isSentenceEnd (last (ascii ''Hello world.''))
   \<and> ascii '' '' \<noteq> [] \<and> list_all isWhiteSpace (ascii '' '')
   \<and> ascii ''This is a test.'' \<noteq> [] \<and> \<not> isWhiteSpace (hd (ascii ''This is a test.''))
   \<and> \<not> isWhiteSpace (last (ascii ''This is a test.''))
   \<and> splitIntoSentences (ascii ''Hello world.'' @ ascii '' '' @ ascii ''This is a test.'')
       = splitIntoSentences (ascii ''Hello world.'') @ splitIntoSentences (ascii ''This is a test.'')
   \<and> ascii ''Hi.'' \<noteq> [] \<and> \<not> isWhiteSpace (hd (ascii ''Hi.''))
   \<and> \<not> isWhiteSpace (last (ascii ''Hi.''))
   \<and> splitIntoSentences (ascii ''Hi.'') = [ascii ''Hi.'']"
proof -
  have ws: "isWhiteSpace 0x20" "isWhiteSpace 0x0A"
    by (simp_all add: isWhiteSpace_def isLineTerminator_def)
  have a: "\<forall>c\<in>set [0x20, 0x0A]. isWhiteSpace c" using ws by simp
  have u: "ascii ''Hello world.'' \<noteq> []" "\<not> isWhiteSpace (hd (ascii ''Hello world.''))"
    "isSentenceEnd (last (ascii ''Hello world.''))"
    by (simp_all add: ascii_def isWhiteSpace_def isLineTerminator_def isSentenceEnd_def)
  have w: "ascii '' '' \<noteq> []" "\<forall>c\<in>set (ascii '' ''). isWhiteSpace c"
    by (simp_all add: ascii_def isWhiteSpace_def)
  have v: "ascii ''This is a test.'' \<noteq> []" "\<not> isWhiteSpace (hd (ascii ''This is a test.''))"
    "\<not> isWhiteSpace (last (ascii ''This is a test.''))"
    by (simp_all add: ascii_def isWhiteSpace_def isLineTerminator_def)
  have t: "ascii ''Hi.'' \<noteq> []" "\<not> isWhiteSpace (hd (ascii ''Hi.''))"
    "\<not> isWhiteSpace (last (ascii ''Hi.''))" "length (ascii ''Hi.'') \<noteq> 1"
    by (simp_all add: ascii_def isWhiteSpace_def isLineTerminator_def)
  note c = C6_sentence_segmenter [of "[0x20, 0x0A]" "ascii ''Hello world.''" "ascii '' ''"
      "ascii ''This is a test.''" "ascii ''Hi.''"]
  note d = C6_sentence_segmenter [of "ascii '' Hi. ''"]
  have 1: "splitIntoSentences [0x20, 0x0A] = []" using c a by blast
  have 2: "splitIntoSentences (ascii '' Hi. '') = splitIntoSentences (trim (ascii '' Hi. ''))"
    using d by blast
  have 3: "splitIntoSentences (ascii ''Hello world.'' @ ascii '' '' @ ascii ''This is a test.'')
       = splitIntoSentences (ascii ''Hello world.'') @ splitIntoSentences (ascii ''This is a test.'')"
    using c u w v by blast
  have "splitIntoSentences (ascii ''Hi.'')
          = filter (\<lambda>p. p \<noteq> [])
              [if length (ascii ''Hi.'') = 1 \<and> isLoneMark (hd (ascii ''Hi.'')) then []
               else transformText (ascii ''Hi.'')]"
    using c t(1,2,3) no_break_Hi by blast
  then have 4: "splitIntoSentences (ascii ''Hi.'') = [ascii ''Hi.'']"
    using t(1,4) by (simp add: transformText_Hi)
  have lw: "list_all isWhiteSpace (ascii '' '')" using w(2) by (simp add: list_all_iff)
  from ws 1 2 u w(1) lw v 3 t(1,2,3) 4 show ?thesis by (intro conjI)
qed

section \<open>Normalizer: a run\<close>

text \<open>
  The three requested breaks in a row collapse to one, the blank block gives no element,
  and the break it asked for, now the last element, is dropped.
\<close>

lemma docxToElements_demo:
  "docxToElements (demo_platform\<lparr>parseFromString := (\<lambda>html. demo_markup)\<rparr>) html 0
     = ([Paragraph (ascii ''p_r_t'') (ascii ''Intro text here.''),
         PageBreak (ascii ''pb_r_t''),
         Paragraph (ascii ''p_r_t'') (ascii ''Next <i>page</i>.'')], 6)"
  by (simp add: docxToElements_def demo_markup_def demo_platform_def looksLikeHeadingText_def
      isLikelyCheckbox_def startsWith_def uid_def clean_step_def last_is_pageBreak_def
      string_eval)

end
